theory Spec2Isabelle
  imports Main "HOL-Library.Word" "HOL-Library.Multiset"
begin

section \<open>Keys, machine integers and the layout constants\<close>

text \<open>
  The B-tree of \<^verbatim>\<open>src/btree.c\<close> stores items with fixed-size keys in fixed-size
  blocks.  The key module (\<^verbatim>\<open>key.h\<close>) and the on-disk format (\<^verbatim>\<open>format.h\<close>) are
  not among the sources.  Keys are taken to be 8-byte unsigned integers, as in the
  end-to-end scenarios of the specification.
\<close>

type_synonym scoutfs_key = "64 word"

text \<open>
  Modelled from the spec: \<^verbatim>\<open>scoutfs_key_cmp\<close>, \<^verbatim>\<open>scoutfs_set_max_key\<close> and
  \<^verbatim>\<open>scoutfs_inc_key\<close> of the key module are missing.  The specification gives keys
  a total order, a maximum-key sentinel and a successor (increment) operation; on a
  fixed-size integer key the increment is the machine addition of one.
\<close>

definition scoutfs_key_cmp :: "scoutfs_key \<Rightarrow> scoutfs_key \<Rightarrow> int" where
  "scoutfs_key_cmp a b = (if a < b then - 1 else if b < a then 1 else 0)"

definition scoutfs_max_key :: scoutfs_key where
  "scoutfs_max_key = - 1"

definition scoutfs_inc_key :: "scoutfs_key \<Rightarrow> scoutfs_key" where
  "scoutfs_inc_key k = k + 1"

text \<open>
  C's \<^verbatim>\<open>unsigned int\<close> and \<^verbatim>\<open>int\<close> are 32 bits wide and the \<^verbatim>\<open>__le16\<close> fields
  16 bits.  Quantities are natural numbers (or integers) with the wrap-around of each
  C operation written out.
\<close>

definition u32 :: "int \<Rightarrow> nat" where
  "u32 x = nat (x mod 2 ^ 32)"

definition s32 :: "int \<Rightarrow> int" where
  "s32 x = (x + 2 ^ 31) mod 2 ^ 32 - 2 ^ 31"

definition le16 :: "int \<Rightarrow> nat" where
  "le16 x = nat (x mod 2 ^ 16)"

text \<open>
  The constants of \<^verbatim>\<open>format.h\<close> that the code uses are parameters of the model:
  \<^verbatim>\<open>SCOUTFS_BLOCK_SIZE\<close>, \<^verbatim>\<open>sizeof(struct scoutfs_btree_block)\<close> (the block header
  up to the offset array), \<^verbatim>\<open>sizeof(struct scoutfs_btree_item)\<close> (the item header)
  and \<^verbatim>\<open>SCOUTFS_BTREE_FREE_LIMIT\<close>.
\<close>

record layout =
  SCOUTFS_BLOCK_SIZE :: nat
  sizeof_btree_block :: nat
  sizeof_btree_item :: nat
  SCOUTFS_BTREE_FREE_LIMIT :: nat

section \<open>Blocks and items\<close>

text \<open>
  An item is its header (\<^verbatim>\<open>key\<close>, \<^verbatim>\<open>seq\<close>, \<^verbatim>\<open>val_len\<close>) followed by the value bytes.
  A block is its header, the dense array \<^verbatim>\<open>item_offs\<close> of 16-bit item offsets (a list:
  \<^verbatim>\<open>nr_items\<close> is its length) and the item memory, read through \<^verbatim>\<open>off_item\<close> as one
  item cell per byte offset.  The cells stand for the bytes of the block as long as
  the items referenced by the offset array do not overlap.
\<close>

record scoutfs_btree_item =
  item_key :: scoutfs_key
  item_seq :: "64 word"
  item_val_len :: nat
  item_val :: "8 word list"

record scoutfs_btree_block =
  hdr_blkno :: "64 word"
  hdr_seq :: "64 word"
  free_end :: nat
  free_reclaim :: nat
  item_offs :: "nat list"
  items :: "nat \<Rightarrow> scoutfs_btree_item"

definition nr_items :: "scoutfs_btree_block \<Rightarrow> nat" where
  "nr_items bt = length (item_offs bt)"

definition val_bytes :: "layout \<Rightarrow> nat \<Rightarrow> nat" where
  "val_bytes L val_len = u32 (int (sizeof_btree_item L) + int val_len)"

definition item_bytes :: "layout \<Rightarrow> scoutfs_btree_item \<Rightarrow> nat" where
  "item_bytes L item = val_bytes L (item_val_len item)"

definition all_val_bytes :: "layout \<Rightarrow> nat \<Rightarrow> nat" where
  "all_val_bytes L val_len = u32 (2 + int (val_bytes L val_len))"

definition all_item_bytes :: "layout \<Rightarrow> scoutfs_btree_item \<Rightarrow> nat" where
  "all_item_bytes L item = all_val_bytes L (item_val_len item)"

definition contig_free :: "layout \<Rightarrow> scoutfs_btree_block \<Rightarrow> nat" where
  "contig_free L bt =
     u32 (int (free_end bt) - int (sizeof_btree_block L + 2 * nr_items bt))"

definition reclaimable_free :: "layout \<Rightarrow> scoutfs_btree_block \<Rightarrow> nat" where
  "reclaimable_free L bt = u32 (int (contig_free L bt) + int (free_reclaim bt))"

definition used_total :: "layout \<Rightarrow> scoutfs_btree_block \<Rightarrow> nat" where
  "used_total L bt =
     u32 (int (SCOUTFS_BLOCK_SIZE L) - int (sizeof_btree_block L)
          - int (reclaimable_free L bt))"

definition off_item :: "scoutfs_btree_block \<Rightarrow> nat \<Rightarrow> scoutfs_btree_item" where
  "off_item bt off = items bt off"

definition pos_item :: "scoutfs_btree_block \<Rightarrow> nat \<Rightarrow> scoutfs_btree_item" where
  "pos_item bt pos = off_item bt (item_offs bt ! pos)"

definition greatest_key :: "scoutfs_btree_block \<Rightarrow> scoutfs_key" where
  "greatest_key bt = item_key (pos_item bt (u32 (int (nr_items bt) - 1)))"

subsection \<open>Binary search\<close>

text \<open>
  The loop of \<^verbatim>\<open>find_pos\<close>, with its four variables; \<^verbatim>\<open>endp\<close> is the source's
  \<^verbatim>\<open>end\<close>.  The function returns the position and the value left in \<^verbatim>\<open>*cmp\<close>.
\<close>

function find_pos_loop ::
  "scoutfs_btree_block \<Rightarrow> scoutfs_key \<Rightarrow> nat \<Rightarrow> nat \<Rightarrow> nat \<Rightarrow> int \<Rightarrow> nat \<times> int" where
  "find_pos_loop bt k start endp pos cmp =
     (if start < endp then
        (let pos' = start + (endp - start) div 2;
             cmp' = scoutfs_key_cmp k (item_key (pos_item bt pos'))
         in if cmp' < 0 then find_pos_loop bt k start pos' pos' cmp'
            else if cmp' > 0 then find_pos_loop bt k (pos' + 1) endp (pos' + 1) (- 1)
            else (pos', cmp'))
      else (pos, cmp))"
  by pat_completeness auto
termination
  by (relation "measure (\<lambda>(bt, k, start, endp, pos, cmp). endp - start)") auto

definition find_pos :: "scoutfs_btree_block \<Rightarrow> scoutfs_key \<Rightarrow> nat \<times> int" where
  "find_pos bt k = find_pos_loop bt k 0 (nr_items bt) 0 (- 1)"

subsection \<open>Creating, deleting and moving items\<close>

text \<open>
  \<^verbatim>\<open>create_item\<close> shifts the tail of the offset array right by one slot, takes
  \<^verbatim>\<open>val_bytes(val_len)\<close> bytes below \<^verbatim>\<open>free_end\<close> and writes the three header fields
  of the new item; the value bytes of the cell are left as they were.  The source
  returns the item pointer, which is \<^verbatim>\<open>pos_item\<close> of the result at \<^verbatim>\<open>pos\<close>.  Callers
  pass \<^verbatim>\<open>pos \<le> nr_items\<close>.
\<close>

definition create_item ::
  "layout \<Rightarrow> scoutfs_btree_block \<Rightarrow> nat \<Rightarrow> scoutfs_key \<Rightarrow> nat \<Rightarrow> scoutfs_btree_block" where
  "create_item L bt pos k val_len =
     (let fe = le16 (int (free_end bt) - int (val_bytes L val_len));
          offs = take pos (item_offs bt) @ [fe] @ drop pos (item_offs bt);
          item = (items bt fe)\<lparr>item_key := k, item_seq := hdr_seq bt,
                                item_val_len := le16 (int val_len)\<rparr>
      in bt\<lparr>free_end := fe, item_offs := offs, items := (items bt)(fe := item)\<rparr>)"

definition zero_item :: scoutfs_btree_item where
  "zero_item = \<lparr>item_key = 0, item_seq = 0, item_val_len = 0, item_val = []\<rparr>"

text \<open>
  \<^verbatim>\<open>delete_item\<close> closes the gap in the offset array, adds the item's bytes to
  \<^verbatim>\<open>free_reclaim\<close> and wipes the item.
\<close>

definition delete_item ::
  "layout \<Rightarrow> scoutfs_btree_block \<Rightarrow> nat \<Rightarrow> scoutfs_btree_block" where
  "delete_item L bt pos =
     (let off = item_offs bt ! pos;
          item = off_item bt off;
          offs = (if pos < u32 (int (nr_items bt) - 1)
                  then take pos (item_offs bt) @ drop (pos + 1) (item_offs bt)
                  else butlast (item_offs bt))
      in bt\<lparr>free_reclaim := le16 (int (free_reclaim bt) + int (item_bytes L item)),
             item_offs := offs,
             items := (items bt)(off := zero_item)\<rparr>)"

lemma nr_items_delete_item:
  "pos < nr_items src \<Longrightarrow> nr_items (delete_item L src pos) < nr_items src"
  by (auto simp: delete_item_def nr_items_def Let_def)

text \<open>
  \<^verbatim>\<open>move_items\<close>: the loop carries the destination, the source, the remaining byte
  budget \<^verbatim>\<open>to_move\<close> (a C \<^verbatim>\<open>int\<close>) and the two positions \<^verbatim>\<open>f\<close> and \<^verbatim>\<open>t\<close>.  It
  returns both blocks.
\<close>

function move_items_loop ::
  "layout \<Rightarrow> scoutfs_btree_block \<Rightarrow> scoutfs_btree_block \<Rightarrow> bool \<Rightarrow> int \<Rightarrow> nat \<Rightarrow> nat
     \<Rightarrow> scoutfs_btree_block \<times> scoutfs_btree_block" where
  "move_items_loop L dst src move_right to_move f t =
     (if f < nr_items src \<and> to_move > 0 then
        (let from = pos_item src f;
             dst1 = create_item L dst t (item_key from) (item_val_len from);
             dst2 = dst1\<lparr>items := (items dst1)(item_offs dst1 ! t := from)\<rparr>;
             to_move' = s32 (to_move - int (all_item_bytes L from));
             src1 = delete_item L src f
         in if move_right
            then move_items_loop L dst2 src1 move_right to_move' (u32 (int f - 1)) t
            else move_items_loop L dst2 src1 move_right to_move' f (t + 1))
      else (dst, src))"
  by pat_completeness auto
termination
  by (relation "measure (\<lambda>(L, dst, src, move_right, to_move, f, t). nr_items src)")
     (auto simp: nr_items_delete_item)

definition move_items ::
  "layout \<Rightarrow> scoutfs_btree_block \<Rightarrow> scoutfs_btree_block \<Rightarrow> bool \<Rightarrow> int
     \<Rightarrow> scoutfs_btree_block \<times> scoutfs_btree_block" where
  "move_items L dst src move_right to_move =
     (if move_right
      then move_items_loop L dst src move_right to_move (u32 (int (nr_items src) - 1)) 0
      else move_items_loop L dst src move_right to_move 0 (nr_items dst))"

subsection \<open>Compaction\<close>

text \<open>
  \<^verbatim>\<open>compact_items\<close> sorts the offset array by offset, walks it from the highest
  offset down, packing each item against the end of the block, and sorts the array by
  key again.  The kernel's \<^verbatim>\<open>sort\<close> is a heap sort; the result of sorting is the same
  list whenever the sort keys are distinct, which is the case for the offsets and keys
  of a well-formed block.  The loop counter \<^verbatim>\<open>i\<close> of the source is the second
  argument minus one.
\<close>

fun compact_loop ::
  "layout \<Rightarrow> nat \<Rightarrow> scoutfs_btree_block \<Rightarrow> nat \<Rightarrow> scoutfs_btree_block \<times> nat" where
  "compact_loop L 0 bt endp = (bt, endp)"
| "compact_loop L (Suc i) bt endp =
     (let off = item_offs bt ! i;
          from = off_item bt off;
          bytes = item_bytes L from;
          endp' = le16 (int endp - int bytes);
          bt' = bt\<lparr>item_offs := (item_offs bt)[i := endp'],
                    items := (if off \<noteq> endp' then (items bt)(endp' := from) else items bt)\<rparr>
      in compact_loop L i bt' endp')"

definition compact_items :: "layout \<Rightarrow> scoutfs_btree_block \<Rightarrow> scoutfs_btree_block" where
  "compact_items L bt =
     (let bt1 = bt\<lparr>item_offs := sort (item_offs bt)\<rparr>;
          (bt2, endp) = compact_loop L (nr_items bt1) bt1 (le16 (int (SCOUTFS_BLOCK_SIZE L)));
          bt3 = bt2\<lparr>free_end := endp, free_reclaim := 0\<rparr>
      in bt3\<lparr>item_offs := sort_key (\<lambda>off. item_key (off_item bt3 off)) (item_offs bt3)\<rparr>)"

subsection \<open>Skipping by sequence number\<close>

text \<open>
  The operations of the walk.  \<^verbatim>\<open>WALK_LOOKUP\<close> is the value \<^verbatim>\<open>0\<close> that
  \<^verbatim>\<open>scoutfs_btree_lookup\<close> passes; the others are the source's enumeration.
\<close>

datatype walk_op =
  WALK_LOOKUP | WALK_INSERT | WALK_DELETE | WALK_NEXT | WALK_NEXT_SEQ | WALK_DIRTY

text \<open>
  A parent item's value is a block reference, sixteen bytes: the little-endian block
  number and the little-endian sequence number.
\<close>

record scoutfs_block_ref =
  ref_blkno :: "64 word"
  ref_seq :: "64 word"

definition le64_bytes :: "64 word \<Rightarrow> 8 word list" where
  "le64_bytes w = map (\<lambda>i. ucast (drop_bit (8 * i) w)) [0..<8]"

definition le64_of_bytes :: "8 word list \<Rightarrow> 64 word" where
  "le64_of_bytes bs = horner_sum ucast (2 ^ 8) (take 8 bs)"

definition ref_bytes :: "scoutfs_block_ref \<Rightarrow> 8 word list" where
  "ref_bytes r = le64_bytes (ref_blkno r) @ le64_bytes (ref_seq r)"

definition item_block_ref :: "scoutfs_btree_item \<Rightarrow> scoutfs_block_ref" where
  "item_block_ref item =
     \<lparr>ref_blkno = le64_of_bytes (item_val item),
      ref_seq = le64_of_bytes (drop 8 (item_val item))\<rparr>"

definition item_block_ref_seq :: "scoutfs_btree_item \<Rightarrow> 64 word" where
  "item_block_ref_seq item = ref_seq (item_block_ref item)"

subsection \<open>Key order of a block\<close>

definition pos_key :: "scoutfs_btree_block \<Rightarrow> nat \<Rightarrow> scoutfs_key" where
  "pos_key bt i = item_key (pos_item bt i)"

text \<open>Invariant 1: the offset array is strictly ordered by key.\<close>

definition key_sorted :: "scoutfs_btree_block \<Rightarrow> bool" where
  "key_sorted bt \<longleftrightarrow> sorted_wrt (<) (map (pos_key bt) [0..<nr_items bt])"

subsection \<open>Skipping by sequence number\<close>

text \<open>
  \<^verbatim>\<open>pos_item\<close> with the bounds of the offset array made explicit: a read at a
  position at or past \<^verbatim>\<open>nr_items\<close> is past the end of the array and yields \<open>None\<close>.
\<close>

definition read_pos_item :: "scoutfs_btree_block \<Rightarrow> nat \<Rightarrow> scoutfs_btree_item option" where
  "read_pos_item bt pos = (if pos < nr_items bt then Some (pos_item bt pos) else None)"

text \<open>
  \<^verbatim>\<open>skip_pos_seq\<close>: the guard first, then the read of the item.  The result is
  \<open>None\<close> when the function reads past the end of the offset array.  The guard
  compares the position with the value of the block's \<^verbatim>\<open>nr_items\<close> field, which is
  16 bits wide in the block layout of the specification (\<^verbatim>\<open>format.h\<close> is missing).
\<close>

definition skip_pos_seq ::
  "scoutfs_btree_block \<Rightarrow> nat \<Rightarrow> nat \<Rightarrow> 64 word \<Rightarrow> walk_op \<Rightarrow> bool option" where
  "skip_pos_seq bt pos level seq op =
     (if op \<noteq> WALK_NEXT_SEQ \<or> pos \<ge> le16 (int (nr_items bt)) then Some False
      else (case read_pos_item bt pos of
              None \<Rightarrow> None
            | Some item \<Rightarrow>
                Some ((level > 0 \<and> item_block_ref_seq item < seq) \<or>
                      (level = 0 \<and> item_seq item < seq))))"

lemma skip_pos_seq_True_bound:
  "skip_pos_seq bt pos level seq op = Some True \<Longrightarrow> pos < 65536"
proof -
  assume a: "skip_pos_seq bt pos level seq op = Some True"
  have "le16 (int (nr_items bt)) < 65536" by (simp add: le16_def)
  with a show ?thesis
    by (cases "op \<noteq> WALK_NEXT_SEQ \<or> pos \<ge> le16 (int (nr_items bt))")
       (simp_all add: skip_pos_seq_def)
qed

text \<open>
  The \<^verbatim>\<open>do ... while\<close> loop of \<^verbatim>\<open>next_pos_seq\<close>.  The position is an
  \<^verbatim>\<open>unsigned int\<close>: \<^verbatim>\<open>pos++\<close> wraps at \<open>2\<^sup>3\<^sup>2\<close>.  The result is \<open>None\<close> when
  an iteration reads past the end of the offset array.
\<close>

function next_pos_seq ::
  "scoutfs_btree_block \<Rightarrow> nat \<Rightarrow> nat \<Rightarrow> 64 word \<Rightarrow> walk_op \<Rightarrow> nat option" where
  "next_pos_seq bt pos level seq op =
     (case skip_pos_seq bt (u32 (int pos + 1)) level seq op of
        None \<Rightarrow> None
      | Some skip \<Rightarrow>
          if skip then next_pos_seq bt (u32 (int pos + 1)) level seq op
          else Some (u32 (int pos + 1)))"
  by pat_completeness auto
termination
proof (relation "measure (\<lambda>(bt, pos, level, seq, op). if pos < 65536 then 65536 - pos else 65537)")
  show "wf (measure (\<lambda>(bt, pos, level, seq, op). if pos < 65536 then 65536 - pos else 65537))"
    by simp
next
  fix bt :: scoutfs_btree_block and pos level :: nat and seq :: "64 word" and op :: walk_op
    and skip :: bool
  assume "skip_pos_seq bt (u32 (int pos + 1)) level seq op = Some skip" and skip
  then have b: "u32 (int pos + 1) < 65536" by (auto dest: skip_pos_seq_True_bound)
  show "((bt, u32 (int pos + 1), level, seq, op), (bt, pos, level, seq, op))
      \<in> measure (\<lambda>(bt, pos, level, seq, op). if pos < 65536 then 65536 - pos else 65537)"
  proof (cases "pos < 65536")
    case True
    then have "u32 (int pos + 1) = pos + 1" by (simp add: u32_def nat_add_distrib)
    with True b show ?thesis by simp
  next
    case False
    with b show ?thesis by simp
  qed
qed

definition find_pos_after_seq ::
  "scoutfs_btree_block \<Rightarrow> scoutfs_key \<Rightarrow> nat \<Rightarrow> 64 word \<Rightarrow> walk_op \<Rightarrow> nat option" where
  "find_pos_after_seq bt k level seq op =
     (let (pos, cmp) = find_pos bt k
      in case skip_pos_seq bt pos level seq op of
           None \<Rightarrow> None
         | Some skip \<Rightarrow> if skip then next_pos_seq bt pos level seq op else Some pos)"

section \<open>Block invariants\<close>

text \<open>
  The items of a block in the order of its offset array, that is in key order.
\<close>

definition block_items :: "scoutfs_btree_block \<Rightarrow> scoutfs_btree_item list" where
  "block_items bt = map (off_item bt) (item_offs bt)"

text \<open>
  The layout constants are sane: items have a header, a block has room for its own
  header and at least one item, and every offset of a block fits a 16-bit field.
\<close>

definition wf_layout :: "layout \<Rightarrow> bool" where
  "wf_layout L \<longleftrightarrow>
     0 < sizeof_btree_item L \<and>
     sizeof_btree_block L + sizeof_btree_item L + 2 \<le> SCOUTFS_BLOCK_SIZE L \<and>
     SCOUTFS_BLOCK_SIZE L < 65536"

text \<open>
  Invariants 2, 3 and 7 of the specification: the offset array ends at or below
  \<^verbatim>\<open>free_end\<close>; every item lies between \<^verbatim>\<open>free_end\<close> and the end of the block; no
  two items overlap; and \<^verbatim>\<open>free_reclaim\<close> is exactly the space above \<^verbatim>\<open>free_end\<close>
  that no item occupies.  Value lengths fit their 16-bit field.
\<close>

definition wf_space :: "layout \<Rightarrow> scoutfs_btree_block \<Rightarrow> bool" where
  "wf_space L bt \<longleftrightarrow>
     sizeof_btree_block L + 2 * nr_items bt \<le> free_end bt \<and>
     free_end bt \<le> SCOUTFS_BLOCK_SIZE L \<and>
     distinct (item_offs bt) \<and>
     (\<forall>off \<in> set (item_offs bt).
        free_end bt \<le> off \<and>
        off + item_bytes L (off_item bt off) \<le> SCOUTFS_BLOCK_SIZE L \<and>
        item_val_len (off_item bt off) < 65536) \<and>
     (\<forall>a \<in> set (item_offs bt). \<forall>b \<in> set (item_offs bt).
        a < b \<longrightarrow> a + item_bytes L (off_item bt a) \<le> b) \<and>
     free_end bt + free_reclaim bt + (\<Sum>off\<leftarrow>item_offs bt. item_bytes L (off_item bt off))
       = SCOUTFS_BLOCK_SIZE L"

text \<open>A well-formed block satisfies the space invariants and is strictly ordered by key.\<close>

definition wf_block :: "layout \<Rightarrow> scoutfs_btree_block \<Rightarrow> bool" where
  "wf_block L bt \<longleftrightarrow> wf_space L bt \<and> key_sorted bt"



text \<open>
  The items at the given ascending offsets lie back to back from \<open>e\<close> up to the end
  of the block; a block is packed when its items do so from \<^verbatim>\<open>free_end\<close>.
\<close>

fun packed_from :: "layout \<Rightarrow> (nat \<Rightarrow> scoutfs_btree_item) \<Rightarrow> nat list \<Rightarrow> nat \<Rightarrow> bool" where
  "packed_from L cells [] e = (e = SCOUTFS_BLOCK_SIZE L)"
| "packed_from L cells (off # offs) e =
     (off = e \<and> packed_from L cells offs (off + item_bytes L (cells off)))"

definition packed :: "layout \<Rightarrow> scoutfs_btree_block \<Rightarrow> bool" where
  "packed L bt = packed_from L (items bt) (sort (item_offs bt)) (free_end bt)"



section \<open>The tree: root, block manager and walk\<close>

text \<open>
  The error numbers that the code returns as \<^verbatim>\<open>ERR_PTR\<close> values or negative
  return values.
\<close>

datatype errno = ENOENT | EEXIST | EIO | ENOSPC

text \<open>
  A \<^verbatim>\<open>buffer_head\<close> is the handle of a pinned block.  The model names a handle by
  the block number of its block and keeps the contents of all blocks in one store, so
  that every pointer into a block (\<^verbatim>\<open>bh_data\<close>, an item, a block reference inside a
  parent item) reads and writes the same memory.
\<close>

type_synonym buffer_head = "64 word"

text \<open>
  The root of the tree (\<^verbatim>\<open>struct scoutfs_btree_root\<close>): the height, an 8-bit field
  in the specification's data model, and the reference to the root block.
\<close>

record scoutfs_btree_root =
  root_height :: nat
  root_ref :: scoutfs_block_ref

text \<open>
  The part of the mounted file system that the tree code reaches through
  \<^verbatim>\<open>SCOUTFS_SB(sb)\<close>: the root (\<^verbatim>\<open>super.btree_root\<close>), the contents of the blocks,
  and the state of the block manager: the sequence number of the running transaction
  (\<^verbatim>\<open>super.hdr.seq\<close>), the block numbers whose read fails and the free block numbers
  of the allocator.  Locks and pin counts are not part of the model: it describes one
  thread of execution.
\<close>

record super_block =
  btree_root :: scoutfs_btree_root
  super_seq :: "64 word"
  blocks :: "64 word \<Rightarrow> scoutfs_btree_block"
  bad_blknos :: "64 word list"
  free_blknos :: "64 word list"

text \<open>
  \<^verbatim>\<open>bh_data\<close> gives the block behind a handle; \<open>set_bh_data\<close> is a write through
  such a pointer.
\<close>

definition bh_data :: "super_block \<Rightarrow> buffer_head \<Rightarrow> scoutfs_btree_block" where
  "bh_data sb bh = blocks sb bh"

definition set_bh_data :: "super_block \<Rightarrow> buffer_head \<Rightarrow> scoutfs_btree_block \<Rightarrow> super_block" where
  "set_bh_data sb bh bt = sb\<lparr>blocks := (blocks sb)(bh := bt)\<rparr>"

text \<open>
  Modelled from the spec: \<^verbatim>\<open>scoutfs_block_dirty_alloc\<close> of the block manager
  (\<^verbatim>\<open>block.c\<close>) is missing.  The block manager contract of the specification reads
  ``\<^verbatim>\<open>alloc_dirty() -> block_handle\<close> (unique block number, contents zeroed enough
  for header init)''.  The model takes the first free block number, fails when there is
  none, and hands out a zeroed block whose header carries its block number and the
  sequence number of the running transaction.
\<close>

definition scoutfs_block_dirty_alloc :: "super_block \<Rightarrow> super_block \<times> (errno + buffer_head)" where
  "scoutfs_block_dirty_alloc sb =
     (case free_blknos sb of
        [] \<Rightarrow> (sb, Inl ENOSPC)
      | blkno # rest \<Rightarrow>
          (set_bh_data (sb\<lparr>free_blknos := rest\<rparr>) blkno
             \<lparr>hdr_blkno = blkno, hdr_seq = super_seq sb, free_end = 0, free_reclaim = 0,
              item_offs = [], items = (\<lambda>_. zero_item)\<rparr>,
           Inr blkno))"

text \<open>
  Modelled from the spec: \<^verbatim>\<open>scoutfs_block_read_ref\<close> is missing.  The contract reads
  ``\<^verbatim>\<open>read_ref(ref) -> block_handle\<close> (shared)''; block acquisition may fail with an
  I/O error.
\<close>

definition scoutfs_block_read_ref :: "super_block \<Rightarrow> scoutfs_block_ref \<Rightarrow> errno + buffer_head" where
  "scoutfs_block_read_ref sb r =
     (if ref_blkno r \<in> set (bad_blknos sb) then Inl EIO else Inr (ref_blkno r))"

text \<open>
  Modelled from the spec: \<^verbatim>\<open>scoutfs_block_dirty_ref\<close> is missing.  The contract reads
  ``\<^verbatim>\<open>dirty_ref(ref) -> block_handle\<close> (exclusive; may CoW; updates \<^verbatim>\<open>ref\<close>
  atomically)'': a block that was already written in the running transaction is
  returned as it is; a clean block is cloned into a newly allocated block number and
  the new reference is returned for the caller's \<^verbatim>\<open>ref\<close>.
\<close>

definition scoutfs_block_dirty_ref ::
  "super_block \<Rightarrow> scoutfs_block_ref \<Rightarrow> super_block \<times> scoutfs_block_ref \<times> (errno + buffer_head)" where
  "scoutfs_block_dirty_ref sb r =
     (if ref_blkno r \<in> set (bad_blknos sb) then (sb, r, Inl EIO)
      else if ref_seq r = super_seq sb then (sb, r, Inr (ref_blkno r))
      else (case free_blknos sb of
              [] \<Rightarrow> (sb, r, Inl ENOSPC)
            | blkno # rest \<Rightarrow>
                (set_bh_data (sb\<lparr>free_blknos := rest\<rparr>) blkno
                   ((bh_data sb (ref_blkno r))\<lparr>hdr_blkno := blkno, hdr_seq := super_seq sb\<rparr>),
                 \<lparr>ref_blkno = blkno, ref_seq = super_seq sb\<rparr>,
                 Inr blkno)))"

text \<open>
  Modelled from the spec: \<^verbatim>\<open>scoutfs_buddy_free\<close> of the allocator (\<^verbatim>\<open>buddy.c\<close>) is
  missing.  By invariant 7 of the specification ``a freed block's block number is
  returned to the allocator''.  The callers have ensured that the free succeeds.
\<close>

definition scoutfs_buddy_free :: "super_block \<Rightarrow> 64 word \<Rightarrow> super_block" where
  "scoutfs_buddy_free sb blkno = sb\<lparr>free_blknos := free_blknos sb @ [blkno]\<rparr>"

text \<open>
  The \<^verbatim>\<open>ref\<close> pointer of the walk points either at the reference of the root
  (\<^verbatim>\<open>&root->ref\<close>) or at the value of a parent item (\<^verbatim>\<open>(void *)item->val\<close>), given by
  the handle of the parent block and the offset of the item.
\<close>

datatype ref_ptr = Root_ref | Item_val buffer_head nat

definition read_ref_ptr :: "super_block \<Rightarrow> ref_ptr \<Rightarrow> scoutfs_block_ref" where
  "read_ref_ptr sb p =
     (case p of
        Root_ref \<Rightarrow> root_ref (btree_root sb)
      | Item_val bh off \<Rightarrow> item_block_ref (off_item (bh_data sb bh) off))"

definition write_ref_ptr :: "super_block \<Rightarrow> ref_ptr \<Rightarrow> scoutfs_block_ref \<Rightarrow> super_block" where
  "write_ref_ptr sb p r =
     (case p of
        Root_ref \<Rightarrow> sb\<lparr>btree_root := (btree_root sb)\<lparr>root_ref := r\<rparr>\<rparr>
      | Item_val bh off \<Rightarrow>
          (let bt = bh_data sb bh; item = off_item bt off
           in set_bh_data sb bh
                (bt\<lparr>items := (items bt)
                   (off := item\<lparr>item_val := ref_bytes r @ drop 16 (item_val item)\<rparr>)\<rparr>)))"

text \<open>
  \<^verbatim>\<open>alloc_tree_block\<close> initialises the three fields of a newly allocated block.
  \<^verbatim>\<open>check_bh_alignment\<close> concerns the addresses of buffers, which the model does not
  have: every handle is aligned.
\<close>

definition alloc_tree_block :: "layout \<Rightarrow> super_block \<Rightarrow> super_block \<times> (errno + buffer_head)" where
  "alloc_tree_block L sb =
     (case scoutfs_block_dirty_alloc sb of
        (sb1, Inl e) \<Rightarrow> (sb1, Inl e)
      | (sb1, Inr bh) \<Rightarrow>
          (set_bh_data sb1 bh
             ((bh_data sb1 bh)\<lparr>free_end := le16 (int (SCOUTFS_BLOCK_SIZE L)),
                                free_reclaim := 0, item_offs := []\<rparr>),
           Inr bh))"

definition free_tree_block :: "super_block \<Rightarrow> 64 word \<Rightarrow> super_block" where
  "free_tree_block sb blkno = scoutfs_buddy_free sb blkno"

text \<open>
  \<^verbatim>\<open>grow_tree\<close>: a new block becomes the root; \<^verbatim>\<open>root->height++\<close> on the 8-bit
  field.
\<close>

definition grow_tree :: "layout \<Rightarrow> super_block \<Rightarrow> super_block \<times> (errno + buffer_head)" where
  "grow_tree L sb =
     (case alloc_tree_block L sb of
        (sb1, Inl e) \<Rightarrow> (sb1, Inl e)
      | (sb1, Inr bh) \<Rightarrow>
          (sb1\<lparr>btree_root :=
                 \<lparr>root_height = (root_height (btree_root sb1) + 1) mod 256,
                  root_ref = \<lparr>ref_blkno = hdr_blkno (bh_data sb1 bh),
                              ref_seq = hdr_seq (bh_data sb1 bh)\<rparr>\<rparr>\<rparr>,
           Inr bh))"

text \<open>
  \<^verbatim>\<open>get_block_ref\<close>: a dirty fetch writes the reference back through the pointer
  it was given.
\<close>

definition get_block_ref ::
  "super_block \<Rightarrow> ref_ptr \<Rightarrow> bool \<Rightarrow> super_block \<times> (errno + buffer_head)" where
  "get_block_ref sb p dirty =
     (if dirty
      then (case scoutfs_block_dirty_ref sb (read_ref_ptr sb p) of
              (sb1, r, res) \<Rightarrow> (write_ref_ptr sb1 p r, res))
      else (sb, scoutfs_block_read_ref sb (read_ref_ptr sb p)))"

text \<open>
  \<^verbatim>\<open>create_parent_item\<close>: \<^verbatim>\<open>create_item\<close> with a 16-byte value, then the
  \<^verbatim>\<open>memcpy\<close> of the reference over the first 16 value bytes.
\<close>

definition create_parent_item ::
  "layout \<Rightarrow> scoutfs_btree_block \<Rightarrow> nat \<Rightarrow> scoutfs_btree_block \<Rightarrow> scoutfs_key
     \<Rightarrow> scoutfs_btree_block" where
  "create_parent_item L parent pos child k =
     (let r = \<lparr>ref_blkno = hdr_blkno child, ref_seq = hdr_seq child\<rparr>;
          p1 = create_item L parent pos k 16;
          off = item_offs p1 ! pos;
          item = off_item p1 off
      in p1\<lparr>items := (items p1)
              (off := item\<lparr>item_val := ref_bytes r @ drop 16 (item_val item)\<rparr>)\<rparr>)"

text \<open>
  \<^verbatim>\<open>try_split\<close>.  The \<^verbatim>\<open>parent\<close> argument is a handle or \<open>None\<close> for the
  source's \<^verbatim>\<open>NULL\<close>; without a parent the tree grows and the new root gets an item
  for \<^verbatim>\<open>right\<close> with the maximal key.  \<^verbatim>\<open>used_total(right) / 2\<close> is an unsigned
  value passed as the \<^verbatim>\<open>int\<close> budget of \<^verbatim>\<open>move_items\<close>.  The function returns the
  new state and the handle or the error.
\<close>

definition try_split ::
  "layout \<Rightarrow> super_block \<Rightarrow> nat \<Rightarrow> scoutfs_key \<Rightarrow> nat \<Rightarrow> buffer_head option \<Rightarrow> nat
     \<Rightarrow> buffer_head \<Rightarrow> super_block \<times> (errno + buffer_head)" where
  "try_split L sb level k val_len parent parent_pos right_bh =
     (let all_bytes = all_val_bytes L (if level \<noteq> 0 then 16 else val_len)
      in if contig_free L (bh_data sb right_bh) \<ge> all_bytes then (sb, Inr right_bh)
         else if reclaimable_free L (bh_data sb right_bh) \<ge> all_bytes
         then (set_bh_data sb right_bh (compact_items L (bh_data sb right_bh)), Inr right_bh)
         else
          (case alloc_tree_block L sb of
             (sb1, Inl e) \<Rightarrow> (sb1, Inl e)
           | (sb1, Inr left_bh) \<Rightarrow>
              (case (case parent of
                       Some par_bh \<Rightarrow> (sb1, Inr (par_bh, parent_pos))
                     | None \<Rightarrow>
                        (case grow_tree L sb1 of
                           (sb2, Inl e) \<Rightarrow>
                             (free_tree_block sb2 (hdr_blkno (bh_data sb2 left_bh)), Inl e)
                         | (sb2, Inr par_bh) \<Rightarrow>
                             (set_bh_data sb2 par_bh
                                (create_parent_item L (bh_data sb2 par_bh) 0
                                   (bh_data sb2 right_bh) scoutfs_max_key),
                              Inr (par_bh, 0)))) of
                 (sb3, Inl e) \<Rightarrow> (sb3, Inl e)
               | (sb3, Inr (par_bh, ppos)) \<Rightarrow>
                  (let (left, right) =
                         move_items L (bh_data sb3 left_bh) (bh_data sb3 right_bh) False
                           (s32 (int (used_total L (bh_data sb3 right_bh) div 2)));
                       sb4 = set_bh_data (set_bh_data sb3 left_bh left) right_bh right;
                       sb5 = set_bh_data sb4 par_bh
                               (create_parent_item L (bh_data sb4 par_bh) ppos
                                  (bh_data sb4 left_bh) (greatest_key (bh_data sb4 left_bh)))
                   in if scoutfs_key_cmp k (greatest_key (bh_data sb5 left_bh)) \<le> 0
                      then (sb5, Inr left_bh)
                      else if contig_free L (bh_data sb5 right_bh) < all_bytes
                      then (set_bh_data sb5 right_bh (compact_items L (bh_data sb5 right_bh)),
                            Inr right_bh)
                      else (sb5, Inr right_bh)))))"

text \<open>
  \<^verbatim>\<open>try_merge\<close>.  \<open>sib_item\<close> is the address (the offset) of the sibling's parent
  item, taken before the parent is changed, as in the source.  \<^verbatim>\<open>to_move\<close> is an
  \<^verbatim>\<open>int\<close>, compared with the unsigned \<^verbatim>\<open>contig_free(bt)\<close> as an unsigned value;
  \<^verbatim>\<open>root->height--\<close> is on the 8-bit field.
\<close>

definition try_merge ::
  "layout \<Rightarrow> super_block \<Rightarrow> buffer_head \<Rightarrow> nat \<Rightarrow> buffer_head
     \<Rightarrow> super_block \<times> (errno + buffer_head)" where
  "try_merge L sb parent pos bh =
     (if reclaimable_free L (bh_data sb bh) \<le> SCOUTFS_BTREE_FREE_LIMIT L then (sb, Inr bh)
      else
       (let sib_pos = (if pos \<noteq> 0 then u32 (int pos - 1) else u32 (int pos + 1));
            move_right = (pos \<noteq> 0);
            sib_item = item_offs (bh_data sb parent) ! sib_pos
        in case get_block_ref sb (Item_val parent sib_item) True of
             (sb1, Inl e) \<Rightarrow> (sb1, Inl e)
           | (sb1, Inr sib_bh) \<Rightarrow>
              (let to_move =
                     (if used_total L (bh_data sb1 sib_bh) \<le> reclaimable_free L (bh_data sb1 bh)
                      then s32 (int (used_total L (bh_data sb1 sib_bh)))
                      else s32 (int (u32 (int (reclaimable_free L (bh_data sb1 bh))
                                          - int (SCOUTFS_BTREE_FREE_LIMIT L)))));
                   sb2 = (if contig_free L (bh_data sb1 bh) < u32 to_move
                          then set_bh_data sb1 bh (compact_items L (bh_data sb1 bh)) else sb1);
                   (bt, sib_bt) = move_items L (bh_data sb2 bh) (bh_data sb2 sib_bh) move_right to_move;
                   sb3 = set_bh_data (set_bh_data sb2 bh bt) sib_bh sib_bt;
                   sb4 = (if \<not> move_right
                          then (let par = bh_data sb3 parent; off = item_offs par ! pos
                                in set_bh_data sb3 parent
                                     (par\<lparr>items := (items par)
                                        (off := (items par off)\<lparr>item_key := greatest_key (bh_data sb3 bh)\<rparr>)\<rparr>))
                          else sb3);
                   sb5 = (if nr_items (bh_data sb4 sib_bh) = 0
                          then free_tree_block
                                 (set_bh_data sb4 parent (delete_item L (bh_data sb4 parent) sib_pos))
                                 (hdr_blkno (bh_data sb4 sib_bh))
                          else if move_right
                          then (let par = bh_data sb4 parent
                                in set_bh_data sb4 parent
                                     (par\<lparr>items := (items par)
                                        (sib_item := (items par sib_item)
                                           \<lparr>item_key := greatest_key (bh_data sb4 sib_bh)\<rparr>)\<rparr>))
                          else sb4)
               in if nr_items (bh_data sb5 parent) = 1
                  then (free_tree_block
                          (sb5\<lparr>btree_root :=
                                \<lparr>root_height = (root_height (btree_root sb5) + 255) mod 256,
                                 root_ref = \<lparr>ref_blkno = hdr_blkno (bh_data sb5 bh),
                                             ref_seq = hdr_seq (bh_data sb5 bh)\<rparr>\<rparr>\<rparr>)
                          (hdr_blkno (bh_data sb5 parent)),
                        Inr bh)
                  else (sb5, Inr bh))))"

text \<open>
  The \<^verbatim>\<open>while (level--)\<close> loop of \<^verbatim>\<open>btree_walk\<close>: \<open>walk_loop\<close> is one run
  of the loop body with \<open>level\<close> the value after the decrement, followed by the
  remaining iterations.  Its state is the \<^verbatim>\<open>ref\<close> pointer, the parent and the position
  in the parent.  \<^verbatim>\<open>try_split\<close> runs under \<^verbatim>\<open>WALK_INSERT\<close> and \<^verbatim>\<open>try_merge\<close>
  under \<^verbatim>\<open>WALK_DELETE\<close> with a parent.  The walk computes \<^verbatim>\<open>next_key\<close> always; a
  caller that passes \<^verbatim>\<open>NULL\<close> ignores it.  A read past the end of the offset array
  in \<^verbatim>\<open>find_pos_after_seq\<close> is reported as \<open>EIO\<close>; it never happens
  (\<open>find_pos_after_seq_returns\<close>).
\<close>

function walk_loop ::
  "layout \<Rightarrow> nat \<Rightarrow> super_block \<Rightarrow> scoutfs_key \<Rightarrow> scoutfs_key \<Rightarrow> nat \<Rightarrow> 64 word \<Rightarrow> walk_op
     \<Rightarrow> ref_ptr \<Rightarrow> buffer_head option \<Rightarrow> nat
     \<Rightarrow> super_block \<times> scoutfs_key \<times> (errno + buffer_head)" where
  "walk_loop L level sb k next_key val_len seq op ref parent pos =
     (let dirty = (op = WALK_INSERT \<or> op = WALK_DELETE \<or> op = WALK_DIRTY)
      in case get_block_ref sb ref dirty of
           (sb1, Inl e) \<Rightarrow> (sb1, next_key, Inl e)
         | (sb1, Inr bh1) \<Rightarrow>
            (case (if op = WALK_INSERT
                   then try_split L sb1 level k val_len parent pos bh1
                   else (case parent of
                           Some par_bh \<Rightarrow>
                             if op = WALK_DELETE then try_merge L sb1 par_bh pos bh1
                             else (sb1, Inr bh1)
                         | None \<Rightarrow> (sb1, Inr bh1))) of
               (sb2, Inl e) \<Rightarrow> (sb2, next_key, Inl e)
             | (sb2, Inr bh) \<Rightarrow>
                if level = 0 then (sb2, next_key, Inr bh)
                else
                 (case find_pos_after_seq (bh_data sb2 bh) k level seq op of
                    None \<Rightarrow> (sb2, next_key, Inl EIO)
                  | Some pos' \<Rightarrow>
                     if pos' \<ge> nr_items (bh_data sb2 bh)
                     then (sb2, next_key, Inl (if op = WALK_NEXT_SEQ then ENOENT else EIO))
                     else
                      (let off = item_offs (bh_data sb2 bh) ! pos';
                           item = off_item (bh_data sb2 bh) off
                       in walk_loop L (level - 1) sb2 k (scoutfs_inc_key (item_key item))
                            val_len seq op (Item_val bh off) (Some bh) pos'))))"
  by pat_completeness auto
termination
  by (relation "measure (\<lambda>(L, level, sb, k, next_key, val_len, seq, op, ref, parent, pos). level)")
     auto

text \<open>
  \<^verbatim>\<open>btree_walk\<close>, lines 744 to 851.  On an empty tree (\<^verbatim>\<open>!root->height\<close>) the
  source tests \<^verbatim>\<open>op == WALK_INSERT\<close>: an insertion gets \<^verbatim>\<open>ERR_PTR(-ENOENT)\<close> and
  every other operation calls \<^verbatim>\<open>grow_tree\<close>.
\<close>

definition btree_walk ::
  "layout \<Rightarrow> super_block \<Rightarrow> scoutfs_key \<Rightarrow> nat \<Rightarrow> 64 word \<Rightarrow> walk_op
     \<Rightarrow> super_block \<times> scoutfs_key \<times> (errno + buffer_head)" where
  "btree_walk L sb k val_len seq op =
     (let next_key = scoutfs_max_key;
          root = btree_root sb
      in if root_height root = 0
         then (if op = WALK_INSERT then (sb, next_key, Inl ENOENT)
               else (case grow_tree L sb of (sb1, res) \<Rightarrow> (sb1, next_key, res)))
         else if op = WALK_NEXT_SEQ \<and> ref_seq (root_ref root) < seq
         then (sb, next_key, Inl ENOENT)
         else walk_loop L (root_height root - 1) sb k next_key val_len seq op Root_ref None 0)"

section \<open>Cursors and the public operations\<close>

text \<open>
  A cursor (\<^verbatim>\<open>struct scoutfs_btree_cursor\<close>).  Its \<^verbatim>\<open>key\<close> and \<^verbatim>\<open>val\<close> fields
  point into the item of the pinned block: \<open>curs_item\<close> is the offset of that item,
  and \<open>curs_key\<close> reads \<^verbatim>\<open>*curs->key\<close> through it.
\<close>

record scoutfs_btree_cursor =
  curs_bh :: "buffer_head option"
  curs_pos :: nat
  curs_write :: bool
  curs_item :: nat
  curs_seq :: "64 word"
  curs_val_len :: nat

definition curs_key :: "super_block \<Rightarrow> scoutfs_btree_cursor \<Rightarrow> scoutfs_key" where
  "curs_key sb curs =
     (case curs_bh curs of
        Some bh \<Rightarrow> item_key (off_item (bh_data sb bh) (curs_item curs))
      | None \<Rightarrow> 0)"

definition set_cursor ::
  "super_block \<Rightarrow> scoutfs_btree_cursor \<Rightarrow> buffer_head \<Rightarrow> nat \<Rightarrow> bool \<Rightarrow> scoutfs_btree_cursor" where
  "set_cursor sb curs bh pos write =
     (let bt = bh_data sb bh;
          off = item_offs bt ! pos;
          item = off_item bt off
      in curs\<lparr>curs_bh := Some bh, curs_pos := pos, curs_write := write,
               curs_item := off, curs_seq := item_seq item,
               curs_val_len := item_val_len item\<rparr>)"

definition scoutfs_btree_release :: "scoutfs_btree_cursor \<Rightarrow> scoutfs_btree_cursor" where
  "scoutfs_btree_release curs = curs\<lparr>curs_bh := None\<rparr>"

text \<open>
  \<^verbatim>\<open>scoutfs_btree_delete\<close>.  The result is the new state and the return value:
  \<open>Inr 0\<close> for \<open>0\<close>, \<open>Inl e\<close> for \<open>-e\<close>.
\<close>

definition scoutfs_btree_delete ::
  "layout \<Rightarrow> super_block \<Rightarrow> scoutfs_key \<Rightarrow> super_block \<times> (errno + nat)" where
  "scoutfs_btree_delete L sb k =
     (case btree_walk L sb k 0 0 WALK_DELETE of
        (sb1, next_key, Inl e) \<Rightarrow> (sb1, Inl e)
      | (sb1, next_key, Inr bh) \<Rightarrow>
          (let (pos, cmp) = find_pos (bh_data sb1 bh) k
           in if cmp = 0
              then (let sb2 = set_bh_data sb1 bh (delete_item L (bh_data sb1 bh) pos)
                    in if nr_items (bh_data sb2 bh) = 0
                       then (free_tree_block
                               (sb2\<lparr>btree_root :=
                                     \<lparr>root_height = 0,
                                      root_ref = \<lparr>ref_blkno = 0, ref_seq = 0\<rparr>\<rparr>\<rparr>)
                               (hdr_blkno (bh_data sb2 bh)),
                             Inr 0)
                       else (sb2, Inr 0))
              else (sb1, Inl ENOENT)))"

text \<open>
  The \<^verbatim>\<open>while (!curs->bh && scoutfs_key_cmp(&key, last) <= 0)\<close> loop of
  \<^verbatim>\<open>btree_next\<close>.  The loop need not terminate: the value \<open>None\<close> of the model
  means that it runs forever.  Otherwise the result is the state, the cursor and the
  error of an early \<^verbatim>\<open>return PTR_ERR(bh)\<close>, if any.
\<close>

partial_function (option) next_leaf ::
  "layout \<Rightarrow> super_block \<Rightarrow> scoutfs_key \<Rightarrow> scoutfs_key \<Rightarrow> 64 word \<Rightarrow> walk_op
     \<Rightarrow> scoutfs_btree_cursor \<Rightarrow> (super_block \<times> scoutfs_btree_cursor \<times> errno option) option" where
  "next_leaf L sb k lastk seq op curs =
     (if curs_bh curs = None \<and> scoutfs_key_cmp k lastk \<le> 0
      then (case btree_walk L sb k 0 seq op of
              (sb1, next_key, res) \<Rightarrow>
                if op = WALK_NEXT_SEQ \<and> res = Inl ENOENT
                then next_leaf L sb1 next_key lastk seq op curs
                else (case res of
                        Inl e \<Rightarrow> if e = ENOENT then Some (sb1, curs, None)
                                 else Some (sb1, curs, Some e)
                      | Inr bh \<Rightarrow>
                         (case find_pos_after_seq (bh_data sb1 bh) k 0 seq op of
                            None \<Rightarrow> Some (sb1, curs, Some EIO)
                          | Some pos \<Rightarrow>
                             if pos \<ge> nr_items (bh_data sb1 bh)
                             then next_leaf L sb1 next_key lastk seq op (curs\<lparr>curs_pos := pos\<rparr>)
                             else Some (sb1, set_cursor sb1 (curs\<lparr>curs_pos := pos\<rparr>) bh pos False, None))))
      else Some (sb, curs, None))"

text \<open>
  \<^verbatim>\<open>btree_next\<close>: the early return for \<^verbatim>\<open>first > last\<close>, the advance of a cursor
  that holds a block, the loop over the leaves and the final test against \<^verbatim>\<open>last\<close>.
  The return value is \<open>Inr 1\<close>, \<open>Inr 0\<close> or \<open>Inl e\<close>; \<open>None\<close> means that the call
  does not return.  A read past the end of the offset array in \<^verbatim>\<open>next_pos_seq\<close> is
  reported as \<open>EIO\<close>; it never happens (\<open>next_pos_seq_returns\<close>).
\<close>

definition btree_next ::
  "layout \<Rightarrow> super_block \<Rightarrow> scoutfs_key \<Rightarrow> scoutfs_key \<Rightarrow> 64 word \<Rightarrow> walk_op
     \<Rightarrow> scoutfs_btree_cursor \<Rightarrow> (super_block \<times> scoutfs_btree_cursor \<times> (errno + nat)) option" where
  "btree_next L sb first lastk seq op curs =
     (if scoutfs_key_cmp first lastk > 0 then Some (sb, curs, Inr 0)
      else
       (case (case curs_bh curs of
                None \<Rightarrow> Some (first, curs)
              | Some bh \<Rightarrow>
                 (case next_pos_seq (bh_data sb bh) (curs_pos curs) 0 seq op of
                    None \<Rightarrow> None
                  | Some pos \<Rightarrow>
                     Some (scoutfs_inc_key (curs_key sb curs),
                           if pos < nr_items (bh_data sb bh)
                           then set_cursor sb (curs\<lparr>curs_pos := pos\<rparr>) bh pos (curs_write curs)
                           else scoutfs_btree_release (curs\<lparr>curs_pos := pos\<rparr>)))) of
          None \<Rightarrow> Some (sb, curs, Inl EIO)
        | Some (k, curs1) \<Rightarrow>
           (case next_leaf L sb k lastk seq op curs1 of
              None \<Rightarrow> None
            | Some (sb1, curs2, Some e) \<Rightarrow> Some (sb1, curs2, Inl e)
            | Some (sb1, curs2, None) \<Rightarrow>
                if curs_bh curs2 \<noteq> None \<and> scoutfs_key_cmp (curs_key sb1 curs2) lastk \<le> 0
                then Some (sb1, curs2, Inr 1)
                else Some (sb1, scoutfs_btree_release curs2, Inr 0))))"

definition scoutfs_btree_next ::
  "layout \<Rightarrow> super_block \<Rightarrow> scoutfs_key \<Rightarrow> scoutfs_key \<Rightarrow> scoutfs_btree_cursor
     \<Rightarrow> (super_block \<times> scoutfs_btree_cursor \<times> (errno + nat)) option" where
  "scoutfs_btree_next L sb first lastk curs = btree_next L sb first lastk 0 WALK_NEXT curs"

definition scoutfs_btree_since ::
  "layout \<Rightarrow> super_block \<Rightarrow> scoutfs_key \<Rightarrow> scoutfs_key \<Rightarrow> 64 word \<Rightarrow> scoutfs_btree_cursor
     \<Rightarrow> (super_block \<times> scoutfs_btree_cursor \<times> (errno + nat)) option" where
  "scoutfs_btree_since L sb first lastk seq curs = btree_next L sb first lastk seq WALK_NEXT_SEQ curs"

text \<open>
  The \<^verbatim>\<open>while ((ret = scoutfs_btree_next(...)) > 0)\<close> loop of
  \<^verbatim>\<open>scoutfs_btree_hole\<close>, which returns the state, the cursor, the hole key and
  \<^verbatim>\<open>ret\<close>.
\<close>

partial_function (option) hole_loop ::
  "layout \<Rightarrow> super_block \<Rightarrow> scoutfs_key \<Rightarrow> scoutfs_key \<Rightarrow> scoutfs_key \<Rightarrow> scoutfs_btree_cursor
     \<Rightarrow> (super_block \<times> scoutfs_btree_cursor \<times> scoutfs_key \<times> (errno + nat)) option" where
  "hole_loop L sb first lastk hole curs =
     (case scoutfs_btree_next L sb first lastk curs of
        None \<Rightarrow> None
      | Some (sb1, curs1, ret) \<Rightarrow>
          (case ret of
             Inl e \<Rightarrow> Some (sb1, curs1, hole, ret)
           | Inr n \<Rightarrow>
               if n > 0
               then (if scoutfs_key_cmp hole (curs_key sb1 curs1) < 0
                     then Some (sb1, curs1, hole, ret)
                     else hole_loop L sb1 first lastk (scoutfs_inc_key (curs_key sb1 curs1)) curs1)
               else Some (sb1, curs1, hole, ret)))"

text \<open>
  The empty cursor that \<^verbatim>\<open>DECLARE_SCOUTFS_BTREE_CURSOR\<close> declares.
\<close>

definition DECLARE_SCOUTFS_BTREE_CURSOR :: scoutfs_btree_cursor where
  "DECLARE_SCOUTFS_BTREE_CURSOR =
     \<lparr>curs_bh = None, curs_pos = 0, curs_write = False, curs_item = 0, curs_seq = 0,
      curs_val_len = 0\<rparr>"

text \<open>
  \<^verbatim>\<open>scoutfs_btree_hole\<close> returns the hole key, or the error (\<open>ENOSPC\<close> when the
  hole key has passed \<^verbatim>\<open>last\<close>).
\<close>

definition scoutfs_btree_hole ::
  "layout \<Rightarrow> super_block \<Rightarrow> scoutfs_key \<Rightarrow> scoutfs_key
     \<Rightarrow> (super_block \<times> (errno + scoutfs_key)) option" where
  "scoutfs_btree_hole L sb first lastk =
     (case hole_loop L sb first lastk first DECLARE_SCOUTFS_BTREE_CURSOR of
        None \<Rightarrow> None
      | Some (sb1, curs1, hole, ret) \<Rightarrow>
          (case ret of
             Inl e \<Rightarrow> Some (sb1, Inl e)
           | Inr n \<Rightarrow>
               if scoutfs_key_cmp hole lastk \<le> 0 then Some (sb1, Inr hole)
               else Some (sb1, Inl ENOSPC)))"

section \<open>Example data\<close>

definition mk_item :: "scoutfs_key \<Rightarrow> 64 word \<Rightarrow> 8 word list \<Rightarrow> scoutfs_btree_item" where
  "mk_item k s v = \<lparr>item_key = k, item_seq = s, item_val_len = length v, item_val = v\<rparr>"

text \<open>
  A layout with 4096-byte blocks, a 32-byte block header and an 18-byte item header
  (8-byte key, 8-byte sequence number, 2-byte value length).
\<close>

definition example_layout :: layout where
  "example_layout = \<lparr>SCOUTFS_BLOCK_SIZE = 4096, sizeof_btree_block = 32,
     sizeof_btree_item = 18, SCOUTFS_BTREE_FREE_LIMIT = 512\<rparr>"

text \<open>
  A leaf holding the keys 10, 20 and 30 with two-byte values, inserted in the order
  20, 10, 30.
\<close>

definition example_leaf :: scoutfs_btree_block where
  "example_leaf = \<lparr>hdr_blkno = 7, hdr_seq = 2, free_end = 4036, free_reclaim = 0,
     item_offs = [4056, 4076, 4036],
     items = (\<lambda>_. zero_item)(4076 := mk_item 20 1 [1, 2], 4056 := mk_item 10 2 [3, 4],
                               4036 := mk_item 30 1 [5, 6])\<rparr>"

definition example_holed :: scoutfs_btree_block where
  "example_holed = delete_item example_layout example_leaf 1"

definition example_empty :: scoutfs_btree_block where
  "example_empty = \<lparr>hdr_blkno = 8, hdr_seq = 2, free_end = 4096, free_reclaim = 0,
     item_offs = [], items = (\<lambda>_. zero_item)\<rparr>"

text \<open>
  An empty tree with two free blocks, the same with no free block, and a tree of height
  one whose root is the example leaf with the keys 10, 20 and 30.
\<close>

definition example_sb_empty :: super_block where
  "example_sb_empty =
     \<lparr>btree_root = \<lparr>root_height = 0, root_ref = \<lparr>ref_blkno = 0, ref_seq = 0\<rparr>\<rparr>,
      super_seq = 2, blocks = (\<lambda>_. example_empty), bad_blknos = [], free_blknos = [9, 11]\<rparr>"

definition example_sb_full :: super_block where
  "example_sb_full = example_sb_empty\<lparr>free_blknos := []\<rparr>"

definition example_tree :: super_block where
  "example_tree =
     \<lparr>btree_root = \<lparr>root_height = 1, root_ref = \<lparr>ref_blkno = 7, ref_seq = 2\<rparr>\<rparr>,
      super_seq = 2, blocks = (\<lambda>_. example_empty)(7 := example_leaf), bad_blknos = [],
      free_blknos = [9, 11]\<rparr>"

lemmas example_eval = example_layout_def example_leaf_def mk_item_def zero_item_def
  Let_def nr_items_def off_item_def pos_item_def read_pos_item_def u32_def le16_def

lemmas ev = example_layout_def example_leaf_def example_holed_def example_empty_def mk_item_def zero_item_def
  delete_item_def create_item_def Let_def nr_items_def off_item_def pos_item_def u32_def le16_def s32_def
  item_bytes_def val_bytes_def all_val_bytes_def all_item_bytes_def contig_free_def reclaimable_free_def used_total_def
  block_items_def

section \<open>Binary search: \<^verbatim>\<open>find_pos\<close>\<close>

lemma key_sorted_nth:
  "key_sorted bt \<Longrightarrow> i < j \<Longrightarrow> j < nr_items bt \<Longrightarrow> pos_key bt i < pos_key bt j"
  by (simp add: key_sorted_def sorted_wrt_iff_nth_less)

lemma key_sorted_nth_le:
  "key_sorted bt \<Longrightarrow> i \<le> j \<Longrightarrow> j < nr_items bt \<Longrightarrow> pos_key bt i \<le> pos_key bt j"
  using key_sorted_nth [of bt i j] by (cases "i = j") auto

lemma find_pos_loop_correct:
  "key_sorted bt \<Longrightarrow> start \<le> endp \<Longrightarrow> endp \<le> nr_items bt \<Longrightarrow>
     (\<forall>i. i < start \<longrightarrow> pos_key bt i < k) \<Longrightarrow>
     (\<forall>i. endp \<le> i \<and> i < nr_items bt \<longrightarrow> k < pos_key bt i) \<Longrightarrow>
     (start = endp \<longrightarrow> pos = start \<and> cmp < 0) \<Longrightarrow>
     find_pos_loop bt k start endp pos cmp = (p, c) \<Longrightarrow>
     p \<le> nr_items bt \<and> (\<forall>i. i < p \<longrightarrow> pos_key bt i < k) \<and>
     (if c = 0 then p < nr_items bt \<and> pos_key bt p = k
      else c < 0 \<and> (\<forall>i. p \<le> i \<and> i < nr_items bt \<longrightarrow> k < pos_key bt i))"
proof (induction bt k start endp pos cmp rule: find_pos_loop.induct)
  case (1 bt k start endp pos cmp)
  show ?case
  proof (cases "start < endp")
    case False
    with "1.prems" show ?thesis by (auto simp: find_pos_loop.simps [of bt k start endp])
  next
    case True
    define m where "m = start + (endp - start) div 2"
    define c' where "c' = scoutfs_key_cmp k (item_key (pos_item bt m))"
    have m: "start \<le> m" "m < endp" "m < nr_items bt"
      using True "1.prems"(2,3) by (auto simp: m_def)
    consider (lt) "k < pos_key bt m" | (gt) "pos_key bt m < k" | (eq) "pos_key bt m = k"
      by fastforce
    then show ?thesis
    proof cases
      case lt
      then have c': "c' < 0" by (simp add: c'_def scoutfs_key_cmp_def pos_key_def)
      have run: "find_pos_loop bt k start m m c' = (p, c)"
        using "1.prems"(7) True c'
        by (subst (asm) find_pos_loop.simps) (simp add: Let_def m_def [symmetric] c'_def [symmetric])
      have up: "\<forall>i. m \<le> i \<and> i < nr_items bt \<longrightarrow> k < pos_key bt i"
        using lt key_sorted_nth_le [OF "1.prems"(1)] by (meson less_le_trans)
      show ?thesis
        by (rule "1.IH"(1) [OF True m_def c'_def c' "1.prems"(1) m(1) _ "1.prems"(4) up _ run])
           (use m c' in auto)
    next
      case gt
      then have c': "\<not> c' < 0" "c' > 0" by (auto simp: c'_def scoutfs_key_cmp_def pos_key_def)
      have run: "find_pos_loop bt k (m + 1) endp (m + 1) (- 1) = (p, c)"
        using "1.prems"(7) True c'
        by (subst (asm) find_pos_loop.simps) (simp add: Let_def m_def [symmetric] c'_def [symmetric])
      have lo: "\<forall>i. i < m + 1 \<longrightarrow> pos_key bt i < k"
      proof (intro allI impI)
        fix i assume "i < m + 1"
        then have "pos_key bt i \<le> pos_key bt m"
          using key_sorted_nth_le [OF "1.prems"(1), of i m] m by simp
        then show "pos_key bt i < k" using gt by simp
      qed
      show ?thesis
        by (rule "1.IH"(2) [OF True m_def c'_def c'(1) c'(2) "1.prems"(1) _ "1.prems"(3) lo "1.prems"(5) _ run])
           (use m in auto)
    next
      case eq
      then have c': "c' = 0" by (simp add: c'_def scoutfs_key_cmp_def pos_key_def)
      have run: "(p, c) = (m, 0)"
        using "1.prems"(7) True c'
        by (subst (asm) find_pos_loop.simps) (simp add: Let_def m_def [symmetric] c'_def [symmetric])
      have "\<forall>i. i < m \<longrightarrow> pos_key bt i < k"
        using key_sorted_nth [OF "1.prems"(1)] m eq by auto
      with run m eq show ?thesis by simp
    qed
  qed
qed

text \<open>
  C6.  For a block whose offset array is strictly key-sorted and any search key,
  \<^verbatim>\<open>find_pos\<close> returns a position \<open>pos \<le> nr_items\<close> such that every item before
  \<open>pos\<close> has a smaller key; \<open>cmp = 0\<close> exactly when \<open>pos < nr_items\<close> and the item at
  \<open>pos\<close> has the search key; otherwise \<open>cmp < 0\<close> and the item at \<open>pos\<close>, when
  there is one, has a greater key (the insertion slot); and \<open>pos = nr_items\<close>
  exactly when the search key exceeds every key of the block.
\<close>

theorem find_pos_sorted:
  assumes "key_sorted bt" and "find_pos bt k = (pos, cmp)"
  shows "pos \<le> nr_items bt \<and>
    (\<forall>i. i < pos \<longrightarrow> pos_key bt i < k) \<and>
    (cmp = 0 \<longleftrightarrow> pos < nr_items bt \<and> pos_key bt pos = k) \<and>
    (cmp \<noteq> 0 \<longrightarrow> cmp < 0) \<and>
    (pos < nr_items bt \<and> k < pos_key bt pos \<longrightarrow> cmp < 0) \<and>
    (pos < nr_items bt \<and> cmp < 0 \<longrightarrow> k < pos_key bt pos) \<and>
    (pos = nr_items bt \<longleftrightarrow> (\<forall>i. i < nr_items bt \<longrightarrow> pos_key bt i < k))"
proof -
  have run: "find_pos_loop bt k 0 (nr_items bt) 0 (- 1) = (pos, cmp)"
    using assms(2) by (simp add: find_pos_def)
  have main: "pos \<le> nr_items bt \<and> (\<forall>i. i < pos \<longrightarrow> pos_key bt i < k) \<and>
     (if cmp = 0 then pos < nr_items bt \<and> pos_key bt pos = k
      else cmp < 0 \<and> (\<forall>i. pos \<le> i \<and> i < nr_items bt \<longrightarrow> k < pos_key bt i))"
    by (rule find_pos_loop_correct [OF assms(1) _ _ _ _ _ run]) auto
  show ?thesis
  proof (cases "cmp = 0")
    case True
    with main show ?thesis by auto
  next
    case False
    with main have lt: "cmp < 0"
      and up: "\<And>i. pos \<le> i \<Longrightarrow> i < nr_items bt \<Longrightarrow> k < pos_key bt i"
      and lo: "\<And>i. i < pos \<Longrightarrow> pos_key bt i < k" and le: "pos \<le> nr_items bt"
      by auto
    have "pos < nr_items bt \<Longrightarrow> k < pos_key bt pos"
      using up [of pos] by simp
    moreover have "(\<forall>i. i < nr_items bt \<longrightarrow> pos_key bt i < k) \<Longrightarrow> pos = nr_items bt"
      using up [of pos] le by (cases "pos < nr_items bt") (auto dest: less_asym)
    ultimately show ?thesis using lt lo le False by auto
  qed
qed

theorem find_pos_sorted_witness:
  "key_sorted example_leaf \<and> find_pos example_leaf 25 = (2, - 1) \<and>
   nr_items example_leaf = 3 \<and> pos_key example_leaf 1 < 25 \<and>
   25 < pos_key example_leaf 2"
proof -
  have s: "key_sorted example_leaf" by code_simp
  have f: "find_pos example_leaf 25 = (2, - 1)" by code_simp
  have n: "nr_items example_leaf = 3" by code_simp
  from find_pos_sorted [OF s f] n show ?thesis using s f by simp
qed

section \<open>Skipping by sequence number: \<^verbatim>\<open>skip_pos_seq\<close> and \<^verbatim>\<open>next_pos_seq\<close>\<close>

lemma le16_le: "le16 (int n) \<le> n"
proof -
  have "int n mod 2 ^ 16 \<le> int n" by (rule zmod_le_nonneg_dividend) simp
  then show ?thesis by (simp add: le16_def)
qed

lemma skip_pos_seq_reads_inside: "skip_pos_seq bt pos level seq op \<noteq> None"
proof (cases "op \<noteq> WALK_NEXT_SEQ \<or> pos \<ge> le16 (int (nr_items bt))")
  case True
  then show ?thesis by (simp add: skip_pos_seq_def)
next
  case False
  then have "pos < nr_items bt" using le16_le [of "nr_items bt"] by simp
  with False show ?thesis by (simp add: skip_pos_seq_def read_pos_item_def)
qed

lemma skip_pos_seq_past_end:
  "nr_items bt \<le> pos \<Longrightarrow> skip_pos_seq bt pos level seq op = Some False"
  using le16_le [of "nr_items bt"] by (simp add: skip_pos_seq_def)

lemma skip_pos_seq_True_inside:
  "skip_pos_seq bt pos level seq op = Some True \<Longrightarrow> pos < nr_items bt"
  using skip_pos_seq_past_end [of bt pos level seq op] by (cases "pos < nr_items bt") simp_all

lemma u32_Suc_le: "pos < n \<Longrightarrow> u32 (int pos + 1) \<le> n"
proof -
  assume a: "pos < n"
  have "(int pos + 1) mod 2 ^ 32 \<le> int pos + 1" by (rule zmod_le_nonneg_dividend) simp
  then have "u32 (int pos + 1) \<le> pos + 1" by (simp add: u32_def)
  with a show ?thesis by simp
qed

lemma next_pos_seq_returns:
  "\<exists>p. next_pos_seq bt pos level seq op = Some p \<and> (pos < nr_items bt \<longrightarrow> p \<le> nr_items bt)"
proof (induction bt pos level seq op rule: next_pos_seq.induct)
  case (1 bt pos level seq op)
  obtain skip where s: "skip_pos_seq bt (u32 (int pos + 1)) level seq op = Some skip"
    using skip_pos_seq_reads_inside [of bt "u32 (int pos + 1)" level seq op] by auto
  show ?case
  proof (cases skip)
    case True
    from "1.IH" [OF s True] obtain p where
      p: "next_pos_seq bt (u32 (int pos + 1)) level seq op = Some p"
        "u32 (int pos + 1) < nr_items bt \<longrightarrow> p \<le> nr_items bt"
      by blast
    have "u32 (int pos + 1) < nr_items bt"
      using s True by (auto dest: skip_pos_seq_True_inside)
    with p have "p \<le> nr_items bt" by simp
    moreover have "next_pos_seq bt pos level seq op = Some p"
      using s True p(1) by (subst next_pos_seq.simps) simp
    ultimately show ?thesis by simp
  next
    case False
    have "next_pos_seq bt pos level seq op = Some (u32 (int pos + 1))"
      using s False by (subst next_pos_seq.simps) simp
    then show ?thesis using u32_Suc_le [of pos "nr_items bt"] by simp
  qed
qed

text \<open>
  C10, as amended.  For every block and every starting position, \<^verbatim>\<open>next_pos_seq\<close>
  terminates (it is a total function) and returns a position without ever reading an
  item past the end of the offset array; \<^verbatim>\<open>skip_pos_seq\<close> never reads past the end
  either and is false at every position at or past \<open>nr_items\<close>; started at a position
  below \<open>nr_items\<close>, \<^verbatim>\<open>next_pos_seq\<close> returns a position that is at most \<open>nr_items\<close>;
  and under any operation other than \<^verbatim>\<open>WALK_NEXT_SEQ\<close> it returns the immediate
  successor of the starting position, in \<^verbatim>\<open>unsigned int\<close> arithmetic.
\<close>

theorem next_pos_seq_in_block:
  "(\<exists>p. next_pos_seq bt pos level seq op = Some p \<and>
        (pos < nr_items bt \<longrightarrow> p \<le> nr_items bt) \<and>
        (op \<noteq> WALK_NEXT_SEQ \<longrightarrow> p = u32 (int pos + 1))) \<and>
   skip_pos_seq bt q level seq op \<noteq> None \<and>
   (nr_items bt \<le> q \<longrightarrow> skip_pos_seq bt q level seq op = Some False)"
proof -
  obtain p where p: "next_pos_seq bt pos level seq op = Some p"
    "pos < nr_items bt \<longrightarrow> p \<le> nr_items bt"
    using next_pos_seq_returns by blast
  have "op \<noteq> WALK_NEXT_SEQ \<Longrightarrow> next_pos_seq bt pos level seq op = Some (u32 (int pos + 1))"
    by (subst next_pos_seq.simps) (simp add: skip_pos_seq_def)
  with p have "op \<noteq> WALK_NEXT_SEQ \<longrightarrow> p = u32 (int pos + 1)" by simp
  with p show ?thesis
    using skip_pos_seq_reads_inside skip_pos_seq_past_end by blast
qed

theorem next_pos_seq_in_block_witness:
  "(0::nat) < nr_items example_leaf \<and> nr_items example_leaf = 3 \<and>
   next_pos_seq example_leaf 0 0 2 WALK_NEXT_SEQ = Some 3 \<and>
   skip_pos_seq example_leaf 3 0 2 WALK_NEXT_SEQ = Some False \<and>
   WALK_NEXT \<noteq> WALK_NEXT_SEQ \<and>
   next_pos_seq example_leaf 4294967295 0 2 WALK_NEXT = Some 0"
proof -
  have n: "nr_items example_leaf = 3" by (simp add: example_eval)
  have r: "next_pos_seq example_leaf 0 0 2 WALK_NEXT_SEQ = Some 3"
    by (simp add: skip_pos_seq_def example_eval)
  have w: "u32 (int 4294967295 + 1) = 0" by (simp add: u32_def)
  from next_pos_seq_in_block [of example_leaf 0 0 2 WALK_NEXT_SEQ 3]
    next_pos_seq_in_block [of example_leaf 4294967295 0 2 WALK_NEXT 3] n r w
  show ?thesis by auto
qed

text \<open>
  The claim as written bounds the result by \<open>nr_items\<close> for every starting position.
  Started at \<open>nr_items\<close> (here 3) the loop increments before it tests and returns
  \<open>nr_items + 1\<close>.
\<close>

theorem next_pos_seq_past_end_counterexample:
  "next_pos_seq example_leaf 3 0 2 WALK_NEXT_SEQ = Some 4 \<and> nr_items example_leaf = 3"
  by (simp add: skip_pos_seq_def example_eval)

section \<open>Space accounting and key order under the in-block mutations\<close>

lemma u32_id: "0 \<le> x \<Longrightarrow> x < 4294967296 \<Longrightarrow> u32 x = nat x"
  by (simp add: u32_def)

lemma le16_id: "0 \<le> x \<Longrightarrow> x < 65536 \<Longrightarrow> le16 x = nat x"
  by (simp add: le16_def)

lemma val_bytes_small:
  "wf_layout L \<Longrightarrow> v < 65536 \<Longrightarrow> val_bytes L v = sizeof_btree_item L + v"
  by (simp add: val_bytes_def wf_layout_def u32_id)


lemma contig_free_wf:
  "wf_layout L \<Longrightarrow> wf_space L bt \<Longrightarrow>
     contig_free L bt = free_end bt - (sizeof_btree_block L + 2 * nr_items bt)"
  by (auto simp: contig_free_def wf_layout_def wf_space_def u32_def nat_diff_distrib
        simp flip: of_nat_diff) 

lemma key_sorted_block_items:
  "key_sorted bt \<longleftrightarrow> sorted_wrt (<) (map item_key (block_items bt))"
proof -
  have "map (pos_key bt) [0..<nr_items bt] = map item_key (block_items bt)"
    by (auto simp: block_items_def pos_key_def pos_item_def nr_items_def
          intro!: nth_equalityI)
  then show ?thesis by (simp add: key_sorted_def)
qed











lemma item_bytes_wf:
  "wf_layout L \<Longrightarrow> wf_space L bt \<Longrightarrow> off \<in> set (item_offs bt) \<Longrightarrow>
     item_bytes L (off_item bt off) = sizeof_btree_item L + item_val_len (off_item bt off)"
  by (simp add: item_bytes_def val_bytes_small wf_space_def)





















section \<open>Compaction\<close>

lemma compact_loop_fields:
  "compact_loop L i bt endp = (bt', endp') \<Longrightarrow>
     hdr_blkno bt' = hdr_blkno bt \<and> hdr_seq bt' = hdr_seq bt \<and>
     free_end bt' = free_end bt \<and> free_reclaim bt' = free_reclaim bt \<and>
     length (item_offs bt') = length (item_offs bt)"
  by (induction i arbitrary: bt endp) (auto simp: Let_def)

lemma compact_loop_spec:
  "i \<le> length (item_offs bt) \<Longrightarrow>
   (\<forall>j k. j < k \<and> k < i \<longrightarrow>
      item_offs bt ! j + item_bytes L (items bt (item_offs bt ! j)) \<le> item_offs bt ! k) \<Longrightarrow>
   (\<forall>j. j < i \<longrightarrow>
      0 < item_bytes L (items bt (item_offs bt ! j)) \<and>
      item_offs bt ! j + item_bytes L (items bt (item_offs bt ! j)) \<le> endp) \<Longrightarrow>
   endp < 65536 \<Longrightarrow>
   compact_loop L i bt endp = (bt', endp') \<Longrightarrow>
   endp' = endp - (\<Sum>l = 0..<i. item_bytes L (items bt (item_offs bt ! l))) \<and>
   (\<forall>j. j < i \<longrightarrow>
      item_offs bt' ! j = endp - (\<Sum>l = j..<i. item_bytes L (items bt (item_offs bt ! l))) \<and>
      (\<Sum>l = j..<i. item_bytes L (items bt (item_offs bt ! l))) \<le> endp - item_offs bt ! j \<and>
      items bt' (item_offs bt' ! j) = items bt (item_offs bt ! j)) \<and>
   (\<forall>j. i \<le> j \<longrightarrow> item_offs bt' ! j = item_offs bt ! j) \<and>
   (\<forall>off. endp \<le> off \<longrightarrow> items bt' off = items bt off)"
proof (induction i arbitrary: bt endp)
  case 0
  then show ?case by simp
next
  case (Suc i)
  define off where "off = item_offs bt ! i"
  define b where "b = (\<lambda>l. item_bytes L (items bt (item_offs bt ! l)))"
  define e where "e = endp - b i"
  define bt1 where "bt1 = bt\<lparr>item_offs := (item_offs bt)[i := e],
       items := (if off \<noteq> e then (items bt)(e := items bt off) else items bt)\<rparr>"
  have bi: "0 < b i" "off + b i \<le> endp"
    using Suc.prems(3) by (auto simp: b_def off_def)
  have e: "le16 (int endp - int (b i)) = e" "off \<le> e" "e < endp" "e < 65536"
    using bi Suc.prems(4) by (auto simp: e_def le16_id nat_diff_distrib)
  have step: "compact_loop L (Suc i) bt endp = compact_loop L i bt1 e"
    by (simp only: compact_loop.simps Let_def off_item_def e(1) [unfolded e_def b_def]
          bt1_def off_def e_def b_def)
  have run: "compact_loop L i bt1 e = (bt', endp')"
    using Suc.prems(5) by (simp only: step)
  have cells: "items bt1 x = (if x = e then items bt off else items bt x)" for x
    by (auto simp: bt1_def)
  have lt: "item_offs bt ! j < e" if "j < i" for j
  proof -
    have "item_offs bt ! j + b j \<le> off"
      using Suc.prems(2) that by (auto simp: b_def off_def)
    moreover have "0 < b j" using Suc.prems(3) that by (auto simp: b_def)
    ultimately show ?thesis using e(2) by linarith
  qed
  have offs1: "item_offs bt1 ! j = item_offs bt ! j" if "j \<noteq> i" for j
    using that by (simp add: bt1_def)
  have offs1i: "item_offs bt1 ! i = e"
    using Suc.prems(1) by (simp add: bt1_def)
  have b1: "item_bytes L (items bt1 (item_offs bt1 ! j)) = b j" if "j < i" for j
    using that lt [OF that] by (simp add: offs1 cells b_def)
  have b1': "item_bytes L (items bt1 (item_offs bt ! j)) = b j" if "j < i" for j
    using that lt [OF that] by (simp add: cells b_def)
  have len1: "i \<le> length (item_offs bt1)" using Suc.prems(1) by (simp add: bt1_def)
  have c2: "\<forall>j k. j < k \<and> k < i \<longrightarrow>
      item_offs bt1 ! j + item_bytes L (items bt1 (item_offs bt1 ! j)) \<le> item_offs bt1 ! k"
    using Suc.prems(2) by (auto simp: b1' offs1 b_def)
  have c3: "\<forall>j. j < i \<longrightarrow>
      0 < item_bytes L (items bt1 (item_offs bt1 ! j)) \<and>
      item_offs bt1 ! j + item_bytes L (items bt1 (item_offs bt1 ! j)) \<le> e"
  proof (intro allI impI)
    fix j assume j: "j < i"
    have "item_offs bt ! j + b j \<le> off"
      using Suc.prems(2) j by (auto simp: b_def off_def)
    moreover have "0 < b j" using Suc.prems(3) j by (auto simp: b_def)
    ultimately show "0 < item_bytes L (items bt1 (item_offs bt1 ! j)) \<and>
      item_offs bt1 ! j + item_bytes L (items bt1 (item_offs bt1 ! j)) \<le> e"
      using j e(2) by (simp add: b1' offs1)
  qed
  have sumeq: "(\<Sum>l = j..<i. item_bytes L (items bt1 (item_offs bt1 ! l))) = (\<Sum>l = j..<i. b l)" for j
    by (rule sum.cong) (simp_all add: b1)
  note IH = Suc.IH [OF len1 c2 c3 e(4) run, unfolded sumeq]
  have IHa: "endp' = e - sum b {0..<i}" using IH by blast
  have IHb: "item_offs bt' ! j = e - sum b {j..<i}" "sum b {j..<i} \<le> e - item_offs bt1 ! j"
    "items bt' (item_offs bt' ! j) = items bt1 (item_offs bt1 ! j)" if "j < i" for j
    using IH that by blast+
  have IHc: "item_offs bt' ! j = item_offs bt1 ! j" if "i \<le> j" for j
    using IH that by blast
  have IHd: "items bt' x = items bt1 x" if "e \<le> x" for x
    using IH that by blast
  have endp': "endp' = endp - (\<Sum>l = 0..<Suc i. b l)"
    using IHa by (simp add: e_def)
  have old: "\<forall>j. Suc i \<le> j \<longrightarrow> item_offs bt' ! j = item_offs bt ! j"
    using IHc by (simp add: offs1)
  have frame: "\<forall>x. endp \<le> x \<longrightarrow> items bt' x = items bt x"
  proof (intro allI impI)
    fix x assume "endp \<le> x"
    then have "e \<le> x" "x \<noteq> e" using e(3) by auto
    then show "items bt' x = items bt x" using IHd [of x] cells [of x] by simp
  qed
  have new: "item_offs bt' ! j = endp - (\<Sum>l = j..<Suc i. b l) \<and>
      (\<Sum>l = j..<Suc i. b l) \<le> endp - item_offs bt ! j \<and>
      items bt' (item_offs bt' ! j) = items bt (item_offs bt ! j)" if j: "j < Suc i" for j
  proof (cases "j = i")
    case True
    have "item_offs bt' ! i = e" using IHc [of i] offs1i by simp
    moreover have "items bt' e = items bt off" using IHd [of e] cells [of e] by simp
    ultimately show ?thesis using True bi by (simp add: e_def off_def)
  next
    case False
    with j have ji: "j < i" by simp
    have ne: "item_offs bt ! j \<noteq> e" using lt [OF ji] by simp
    have 1: "item_offs bt' ! j = e - (\<Sum>l = j..<i. b l)"
      by (rule IHb(1) [OF ji])
    have 2: "(\<Sum>l = j..<i. b l) \<le> e - item_offs bt ! j"
      using IHb(2) [OF ji] offs1 [of j] ji by simp
    have 3: "items bt' (item_offs bt' ! j) = items bt (item_offs bt ! j)"
      using IHb(3) [OF ji] offs1 [of j] ji cells [of "item_offs bt ! j"] ne by simp
    have s: "(\<Sum>l = j..<Suc i. b l) = (\<Sum>l = j..<i. b l) + b i"
      using ji by simp
    have 4: "e - (\<Sum>l = j..<i. b l) = endp - ((\<Sum>l = j..<i. b l) + b i)"
      by (simp add: e_def)
    have 5: "(\<Sum>l = j..<i. b l) + b i \<le> endp - item_offs bt ! j"
      using 2 bi e(2) lt [OF ji] by (simp add: e_def)
    show ?thesis unfolding s using 1 3 4 5 by simp
  qed
  show ?case
    unfolding b_def [symmetric] using endp' new old frame by blast
qed

lemma sum_list_sort_nat:
  "sum_list (map f (sort xs)) = (sum_list (map f xs) :: nat)"
proof -
  have "mset (map f (sort xs)) = mset (map f xs)" by simp
  then show ?thesis by (metis sum_mset_sum_list)
qed

lemma sum_list_nth_interval:
  "sum_list (map f xs) = (\<Sum>l = 0..<length xs. f (xs ! l))"
  by (simp add: sum_list_sum_nth atLeast0LessThan)

lemma sorted_distinct_nth_less:
  "sorted xs \<Longrightarrow> distinct xs \<Longrightarrow> j < k \<Longrightarrow> k < length xs \<Longrightarrow> xs ! j < (xs ! k :: nat)"
  by (metis antisym_conv1 less_imp_le_nat nat_neq_iff nth_eq_iff_index_eq order_less_trans sorted_nth_mono)

lemma compact_items_result:
  assumes L: "wf_layout L" and W: "wf_space L bt"
  defines "S \<equiv> sort (item_offs bt)"
  defines "n \<equiv> nr_items bt"
  defines "b \<equiv> \<lambda>l. item_bytes L (items bt (sort (item_offs bt) ! l))"
  shows "\<exists>E cells.
     compact_items L bt =
       bt\<lparr>free_end := free_end bt + free_reclaim bt, free_reclaim := 0,
          item_offs := sort_key (\<lambda>off. item_key (cells off)) E, items := cells\<rparr> \<and>
     length E = n \<and>
     (\<forall>j. j < n \<longrightarrow>
        E ! j = SCOUTFS_BLOCK_SIZE L - (\<Sum>l = j..<n. b l) \<and>
        (\<Sum>l = j..<n. b l) \<le> SCOUTFS_BLOCK_SIZE L - S ! j \<and> 0 < b j \<and>
        cells (E ! j) = items bt (S ! j))"
proof -
  define bt1 where "bt1 = bt\<lparr>item_offs := S\<rparr>"
  obtain bt2 endp' where run: "compact_loop L n bt1 (SCOUTFS_BLOCK_SIZE L) = (bt2, endp')"
    by (cases "compact_loop L n bt1 (SCOUTFS_BLOCK_SIZE L)") blast
  have bs: "SCOUTFS_BLOCK_SIZE L < 65536" using L by (simp add: wf_layout_def)
  have lenS: "length S = n" by (simp add: S_def n_def nr_items_def)
  have setS: "set S = set (item_offs bt)" by (simp add: S_def)
  have sortedS: "sorted S" "distinct S" using W by (simp_all add: S_def wf_space_def)
  have memS: "S ! j \<in> set (item_offs bt)" if "j < n" for j
    using that lenS setS by (metis nth_mem)
  have offs1: "item_offs bt1 = S" and cells1: "items bt1 = items bt"
    by (simp_all add: bt1_def)
  have c1: "n \<le> length (item_offs bt1)" by (simp add: offs1 lenS)
  have c2: "\<forall>j k. j < k \<and> k < n \<longrightarrow>
      item_offs bt1 ! j + item_bytes L (items bt1 (item_offs bt1 ! j)) \<le> item_offs bt1 ! k"
  proof (intro allI impI)
    fix j k assume jk: "j < k \<and> k < n"
    then have "S ! j < S ! k" using sorted_distinct_nth_less [OF sortedS, of j k] lenS by simp
    moreover have "S ! j \<in> set (item_offs bt)" "S ! k \<in> set (item_offs bt)"
      using jk memS by simp_all
    ultimately show "item_offs bt1 ! j + item_bytes L (items bt1 (item_offs bt1 ! j)) \<le> item_offs bt1 ! k"
      using W unfolding offs1 cells1 wf_space_def off_item_def by blast
  qed
  have c3: "\<forall>j. j < n \<longrightarrow>
      0 < item_bytes L (items bt1 (item_offs bt1 ! j)) \<and>
      item_offs bt1 ! j + item_bytes L (items bt1 (item_offs bt1 ! j)) \<le> SCOUTFS_BLOCK_SIZE L"
  proof (intro allI impI)
    fix j assume j: "j < n"
    have "item_bytes L (off_item bt (S ! j)) = sizeof_btree_item L + item_val_len (off_item bt (S ! j))"
      by (rule item_bytes_wf [OF L W memS [OF j]])
    then have "0 < item_bytes L (items bt (S ! j))"
      using L by (simp add: wf_layout_def off_item_def)
    moreover have "S ! j + item_bytes L (items bt (S ! j)) \<le> SCOUTFS_BLOCK_SIZE L"
      using W memS [OF j] unfolding wf_space_def off_item_def by blast
    ultimately show "0 < item_bytes L (items bt1 (item_offs bt1 ! j)) \<and>
      item_offs bt1 ! j + item_bytes L (items bt1 (item_offs bt1 ! j)) \<le> SCOUTFS_BLOCK_SIZE L"
      by (simp add: offs1 cells1)
  qed
  note spec = compact_loop_spec [OF c1 c2 c3 bs run, unfolded offs1 cells1 S_def, folded b_def]
  note flds = compact_loop_fields [OF run, unfolded offs1]
  have total: "(\<Sum>l = 0..<n. b l) = (\<Sum>off\<leftarrow>item_offs bt. item_bytes L (off_item bt off))"
  proof -
    have "(\<Sum>l = 0..<n. b l) = sum_list (map (\<lambda>off. item_bytes L (items bt off)) S)"
      unfolding b_def S_def [symmetric] by (simp add: sum_list_nth_interval lenS)
    also have "\<dots> = sum_list (map (\<lambda>off. item_bytes L (items bt off)) (item_offs bt))"
      unfolding S_def by (rule sum_list_sort_nat)
    finally show ?thesis by (simp add: off_item_def)
  qed
  have acc: "free_end bt + free_reclaim bt + (\<Sum>l = 0..<n. b l) = SCOUTFS_BLOCK_SIZE L"
    using W unfolding total wf_space_def by blast
  have endp': "endp' = free_end bt + free_reclaim bt"
    using spec acc by linarith
  have le16bs: "le16 (int (SCOUTFS_BLOCK_SIZE L)) = SCOUTFS_BLOCK_SIZE L"
    using bs by (simp add: le16_id)
  have ci: "compact_items L bt =
      bt2\<lparr>free_end := endp', free_reclaim := 0,
          item_offs := sort_key (\<lambda>off. item_key (items bt2 off)) (item_offs bt2)\<rparr>"
    using run
    by (simp add: compact_items_def Let_def le16bs bt1_def [symmetric] S_def [symmetric]
          nr_items_def [of bt1] offs1 lenS off_item_def)
  have bt2: "bt2 = bt\<lparr>item_offs := item_offs bt2, items := items bt2\<rparr>"
    using flds
    by (intro scoutfs_btree_block.equality) (simp_all add: bt1_def)
  have "compact_items L bt =
       bt\<lparr>free_end := free_end bt + free_reclaim bt, free_reclaim := 0,
          item_offs := sort_key (\<lambda>off. item_key (items bt2 off)) (item_offs bt2), items := items bt2\<rparr>"
    unfolding ci endp' by (subst bt2) simp
  moreover have "length (item_offs bt2) = n" using flds lenS by simp
  moreover have "\<forall>j. j < n \<longrightarrow>
        item_offs bt2 ! j = SCOUTFS_BLOCK_SIZE L - (\<Sum>l = j..<n. b l) \<and>
        (\<Sum>l = j..<n. b l) \<le> SCOUTFS_BLOCK_SIZE L - S ! j \<and> 0 < b j \<and>
        items bt2 (item_offs bt2 ! j) = items bt (S ! j)"
    using spec c3 unfolding offs1 cells1 S_def b_def by blast
  ultimately show ?thesis by blast
qed

lemma block_items_fields:
  "block_items (bt\<lparr>free_end := a, free_reclaim := r, item_offs := F, items := cells\<rparr>) = map cells F"
  by (simp add: block_items_def off_item_def)

lemma compact_items_block_items:
  assumes L: "wf_layout L" and W: "wf_block L bt"
  shows "block_items (compact_items L bt) = block_items bt"
proof -
  have Ws: "wf_space L bt" and Ks: "key_sorted bt" using W by (simp_all add: wf_block_def)
  define S where "S = sort (item_offs bt)"
  define n where "n = nr_items bt"
  from compact_items_result [OF L Ws, folded S_def n_def]
  obtain E cells where C: "compact_items L bt =
       bt\<lparr>free_end := free_end bt + free_reclaim bt, free_reclaim := 0,
          item_offs := sort_key (\<lambda>off. item_key (cells off)) E, items := cells\<rparr>"
    and lenE: "length E = n"
    and cellsE: "\<And>j. j < n \<Longrightarrow> cells (E ! j) = items bt (S ! j)"
    by blast
  have lenS: "length S = n" by (simp add: S_def n_def nr_items_def)
  have distS: "distinct S" using Ws by (simp add: S_def wf_space_def)
  define \<phi> where "\<phi> = (\<lambda>off. the (map_of (zip S E) off))"
  have phiS: "\<phi> (S ! j) = E ! j" if "j < n" for j
    using that lenS lenE distS by (simp add: \<phi>_def map_of_zip_nth)
  have mapphi: "map \<phi> S = E"
    by (rule nth_equalityI) (simp_all add: lenS lenE phiS)
  define F where "F = map \<phi> (item_offs bt)"
  have msetF: "mset E = mset F"
  proof -
    have "mset (map \<phi> S) = mset (map \<phi> (item_offs bt))"
      by (simp add: S_def)
    then show ?thesis by (simp add: mapphi F_def)
  qed
  have inS: "\<exists>j. j < n \<and> off = S ! j" if "off \<in> set (item_offs bt)" for off
  proof -
    from that have "off \<in> set S" by (simp add: S_def)
    then show ?thesis by (metis in_set_conv_nth lenS)
  qed
  have cellsphi: "cells (\<phi> off) = items bt off" if "off \<in> set (item_offs bt)" for off
    using inS [OF that] phiS cellsE by auto
  have keys: "map (\<lambda>off. item_key (cells off)) F = map item_key (block_items bt)"
    by (simp add: F_def block_items_def off_item_def cellsphi)
  have strict: "sorted_wrt (<) (map item_key (block_items bt))"
    using Ks by (simp add: key_sorted_block_items)
  have sortedF: "sorted (map (\<lambda>off. item_key (cells off)) F)"
    unfolding keys using strict by (rule strict_sorted_imp_sorted)
  have distk: "distinct (map (\<lambda>off. item_key (items bt off)) (item_offs bt))"
    using strict strict_sorted_iff [of "map item_key (block_items bt)"]
    by (simp add: block_items_def off_item_def comp_def)
  then have injk: "inj_on (\<lambda>off. item_key (items bt off)) (set (item_offs bt))"
    by (simp add: distinct_map)
  have inj: "inj_on (\<lambda>off. item_key (cells off)) (set E)"
  proof (rule inj_onI)
    fix x y assume x: "x \<in> set E" and y: "y \<in> set E"
      and eq: "item_key (cells x) = item_key (cells y)"
    from x y obtain j k where j: "j < n" "x = E ! j" and k: "k < n" "y = E ! k"
      by (metis in_set_conv_nth lenE)
    have "item_key (items bt (S ! j)) = item_key (items bt (S ! k))"
      using eq j k cellsE by simp
    moreover have "S ! j \<in> set (item_offs bt)" "S ! k \<in> set (item_offs bt)"
      using j k lenS by (metis S_def nth_mem set_sort)+
    ultimately have "S ! j = S ! k" using injk by (simp add: inj_on_def)
    then have "j = k" using distS j k lenS by (simp add: nth_eq_iff_index_eq)
    then show "x = y" using j k by simp
  qed
  have "sort_key (\<lambda>off. item_key (cells off)) E = F"
    by (rule sort_key_inj_key_eq [OF msetF inj sortedF])
  then have "block_items (compact_items L bt) = map cells F"
    unfolding C block_items_fields by simp
  also have "\<dots> = block_items bt"
    by (simp add: F_def block_items_def off_item_def cellsphi)
  finally show ?thesis .
qed

lemma packed_from_chain:
  "j \<le> length E \<Longrightarrow>
   (\<forall>i. j \<le> i \<and> i < length E \<longrightarrow> E ! i = e i \<and> e i + item_bytes L (cells (E ! i)) = e (Suc i)) \<Longrightarrow>
   e (length E) = SCOUTFS_BLOCK_SIZE L \<Longrightarrow>
   packed_from L cells (drop j E) (e j)"
proof (induction "length E - j" arbitrary: j)
  case 0
  then show ?case by simp
next
  case (Suc m)
  then have j: "j < length E" by simp
  have d: "drop j E = E ! j # drop (Suc j) E"
    using j by (simp add: Cons_nth_drop_Suc)
  have m: "m = length E - Suc j" using Suc.hyps(2) by simp
  have ch: "\<forall>i. Suc j \<le> i \<and> i < length E \<longrightarrow>
      E ! i = e i \<and> e i + item_bytes L (cells (E ! i)) = e (Suc i)"
    using Suc.prems(2) by (meson Suc_leD)
  have sj: "Suc j \<le> length E" using j by simp
  have "packed_from L cells (drop (Suc j) E) (e (Suc j))"
    by (rule Suc.hyps(1) [OF m sj ch Suc.prems(3)])
  moreover have "E ! j = e j" "e j + item_bytes L (cells (E ! j)) = e (Suc j)"
    using Suc.prems(2) j by blast+
  ultimately show ?case
    unfolding d packed_from.simps by simp
qed

lemma compact_items_wf_space:
  assumes L: "wf_layout L" and W: "wf_space L bt"
  shows "wf_space L (compact_items L bt) \<and> packed L (compact_items L bt) \<and>
     free_end (compact_items L bt) = free_end bt + free_reclaim bt \<and>
     free_reclaim (compact_items L bt) = 0 \<and>
     nr_items (compact_items L bt) = nr_items bt \<and>
     hdr_blkno (compact_items L bt) = hdr_blkno bt \<and>
     hdr_seq (compact_items L bt) = hdr_seq bt"
proof -
  define S where "S = sort (item_offs bt)"
  define n where "n = nr_items bt"
  define b where "b = (\<lambda>l. item_bytes L (items bt (sort (item_offs bt) ! l)))"
  define BS where "BS = SCOUTFS_BLOCK_SIZE L"
  define e where "e = (\<lambda>j. BS - (\<Sum>l = j..<n. b l))"
  from compact_items_result [OF L W]
  obtain E cells where R: "compact_items L bt =
       bt\<lparr>free_end := free_end bt + free_reclaim bt, free_reclaim := 0,
          item_offs := sort_key (\<lambda>off. item_key (cells off)) E, items := cells\<rparr> \<and>
     length E = nr_items bt \<and>
     (\<forall>j. j < nr_items bt \<longrightarrow>
        E ! j = SCOUTFS_BLOCK_SIZE L -
          (\<Sum>l = j..<nr_items bt. item_bytes L (items bt (sort (item_offs bt) ! l))) \<and>
        (\<Sum>l = j..<nr_items bt. item_bytes L (items bt (sort (item_offs bt) ! l)))
          \<le> SCOUTFS_BLOCK_SIZE L - sort (item_offs bt) ! j \<and>
        0 < item_bytes L (items bt (sort (item_offs bt) ! j)) \<and>
        cells (E ! j) = items bt (sort (item_offs bt) ! j))"
    by (elim exE)
  have C: "compact_items L bt =
       bt\<lparr>free_end := free_end bt + free_reclaim bt, free_reclaim := 0,
          item_offs := sort_key (\<lambda>off. item_key (cells off)) E, items := cells\<rparr>"
    and lenE: "length E = n"
    using R unfolding n_def by (rule conjunct1, rule conjunct1 [OF conjunct2])
  have all0: "\<forall>j. j < n \<longrightarrow>
        E ! j = e j \<and> (\<Sum>l = j..<n. b l) \<le> BS - S ! j \<and> 0 < b j \<and>
        cells (E ! j) = items bt (S ! j)"
    using R unfolding n_def e_def b_def BS_def S_def by (rule conjunct2 [OF conjunct2])
  have Ej: "E ! j = e j" and le: "(\<Sum>l = j..<n. b l) \<le> BS - S ! j" and bpos: "0 < b j"
    and cellsE: "cells (E ! j) = items bt (S ! j)" if "j < n" for j
    using all0 [rule_format, OF that] by blast+
  define F where "F = sort_key (\<lambda>off. item_key (cells off)) E"
  have lenS: "length S = n" by (simp add: S_def n_def nr_items_def)
  have memS: "S ! j \<in> set (item_offs bt)" if "j < n" for j
    using that lenS by (metis S_def nth_mem set_sort)
  have en: "e n = BS" by (simp add: e_def)
  have step: "e j + b j = e (Suc j)" if "j < n" for j
  proof -
    have "(\<Sum>l = j..<n. b l) = b j + (\<Sum>l = Suc j..<n. b l)"
      using that by (simp add: sum.atLeast_Suc_lessThan)
    moreover have "(\<Sum>l = j..<n. b l) \<le> BS" using le [OF that] by simp
    ultimately show ?thesis by (simp add: e_def)
  qed
  have mono: "e j \<le> e k" if "j \<le> k" "k \<le> n" for j k
    using that
  proof (induction k)
    case 0
    then show ?case by simp
  next
    case (Suc k)
    show ?case
    proof (cases "j = Suc k")
      case True
      then show ?thesis by simp
    next
      case False
      then have "e j \<le> e k" using Suc by simp
      also have "e k \<le> e (Suc k)" using step [of k] Suc.prems by simp
      finally show ?thesis .
    qed
  qed
  have strict: "e j + b j \<le> e k" if "j < k" "k \<le> n" for j k
    using step [of j] mono [of "Suc j" k] that by simp
  have bytesE: "item_bytes L (cells (E ! j)) = b j" if "j < n" for j
    using that by (simp add: cellsE b_def S_def)
  have bytesE': "item_bytes L (cells (e j)) = b j" if "j < n" for j
    using bytesE [OF that] Ej [OF that] by simp
  have cellsE': "cells (e j) = items bt (S ! j)" if "j < n" for j
    using cellsE [OF that] Ej [OF that] by simp
  have sortedE: "sorted_wrt (<) E"
    unfolding sorted_wrt_iff_nth_less
  proof (intro allI impI)
    fix j k assume "j < k" "k < length E"
    then show "E ! j < E ! k"
      using strict [of j k] bpos [of j] Ej lenE by simp
  qed
  have distE: "distinct E" using sortedE strict_sorted_iff by blast
  have sE: "sorted E" using sortedE by (rule strict_sorted_imp_sorted)
  have setF: "set F = set E" and distF: "distinct F" and lenF: "length F = n"
    using distE lenE by (simp_all add: F_def)
  have msetF: "mset F = mset E" by (simp add: F_def)
  have sortF: "sort F = E"
    by (rule properties_for_sort) (simp_all add: msetF sE)
  have acc: "free_end bt + free_reclaim bt + (\<Sum>off\<leftarrow>item_offs bt. item_bytes L (off_item bt off)) = BS"
    using W unfolding wf_space_def BS_def by blast
  have total: "(\<Sum>l = 0..<n. b l) = (\<Sum>off\<leftarrow>item_offs bt. item_bytes L (off_item bt off))"
  proof -
    have "(\<Sum>l = 0..<n. b l) = sum_list (map (\<lambda>off. item_bytes L (items bt off)) S)"
      unfolding b_def S_def [symmetric] by (simp add: sum_list_nth_interval lenS)
    also have "\<dots> = sum_list (map (\<lambda>off. item_bytes L (items bt off)) (item_offs bt))"
      unfolding S_def by (rule sum_list_sort_nat)
    finally show ?thesis by (simp add: off_item_def)
  qed
  have e0: "e 0 = free_end bt + free_reclaim bt"
    using acc total by (simp add: e_def)
  have fields: "free_end (compact_items L bt) = e 0" "free_reclaim (compact_items L bt) = 0"
    "item_offs (compact_items L bt) = F" "items (compact_items L bt) = cells"
    "hdr_blkno (compact_items L bt) = hdr_blkno bt" "hdr_seq (compact_items L bt) = hdr_seq bt"
    by (simp_all add: C F_def e0)
  have nr: "nr_items (compact_items L bt) = n"
    by (simp add: nr_items_def fields lenF)
  have sumF: "(\<Sum>off\<leftarrow>F. item_bytes L (cells off)) = (\<Sum>l = 0..<n. b l)"
  proof -
    have "mset (map (\<lambda>off. item_bytes L (cells off)) F) = mset (map (\<lambda>off. item_bytes L (cells off)) E)"
      using msetF by simp
    then have "(\<Sum>off\<leftarrow>F. item_bytes L (cells off)) = (\<Sum>off\<leftarrow>E. item_bytes L (cells off))"
      by (metis sum_mset_sum_list)
    also have "\<dots> = (\<Sum>l = 0..<n. item_bytes L (cells (E ! l)))"
      by (simp add: sum_list_nth_interval lenE)
    also have "\<dots> = (\<Sum>l = 0..<n. b l)"
      by (rule sum.cong) (simp_all add: bytesE)
    finally show ?thesis .
  qed
  have inE: "\<exists>j. j < n \<and> off = E ! j" if "off \<in> set F" for off
    using that setF by (metis in_set_conv_nth lenE)
  have pk: "packed L (compact_items L bt)"
  proof -
    have ch: "\<forall>i. 0 \<le> i \<and> i < length E \<longrightarrow>
        E ! i = e i \<and> e i + item_bytes L (cells (E ! i)) = e (Suc i)"
    proof (intro allI impI conjI)
      fix i assume "0 \<le> i \<and> i < length E"
      then have i: "i < n" using lenE by simp
      show "E ! i = e i" by (rule Ej [OF i])
      show "e i + item_bytes L (cells (E ! i)) = e (Suc i)"
        unfolding bytesE [OF i] by (rule step [OF i])
    qed
    have "e (length E) = SCOUTFS_BLOCK_SIZE L" using en lenE by (simp add: BS_def)
    then have "packed_from L cells (drop 0 E) (e 0)"
      by (intro packed_from_chain [OF _ ch]) simp_all
    then show ?thesis by (simp add: packed_def fields sortF)
  qed
  have wf: "wf_space L (compact_items L bt)"
    unfolding wf_space_def nr fields off_item_def BS_def [symmetric]
  proof (intro conjI ballI impI)
    have "sizeof_btree_block L + 2 * n \<le> free_end bt"
      using W by (simp add: wf_space_def n_def)
    then show "sizeof_btree_block L + 2 * n \<le> e 0" by (simp add: e0)
    show "e 0 \<le> BS" by (simp add: e_def)
    show "distinct F" by (rule distF)
    show "e 0 + 0 + (\<Sum>off\<leftarrow>F. item_bytes L (cells off)) = BS"
      using acc total by (simp add: sumF e0)
  next
    fix off assume "off \<in> set F"
    then obtain j where j: "j < n" "off = E ! j" using inE by blast
    show "e 0 \<le> off" using j mono [of 0 j] by (simp add: Ej)
    show "off + item_bytes L (cells off) \<le> BS"
      using j strict [of j n] en by (simp add: Ej bytesE')
    have "item_val_len (off_item bt (S ! j)) < 65536"
      using W memS [OF j(1)] unfolding wf_space_def by blast
    then show "item_val_len (cells off) < 65536"
      using j by (simp add: Ej cellsE' off_item_def)
  next
    fix x y assume "x \<in> set F" "y \<in> set F" and xy: "x < y"
    then obtain j k where j: "j < n" "x = E ! j" and k: "k < n" "y = E ! k"
      using inE by blast
    have "j < k"
    proof (rule ccontr)
      assume "\<not> j < k"
      then have "e k \<le> e j" using mono [of k j] j by simp
      then show False using xy j k by (simp add: Ej)
    qed
    then show "x + item_bytes L (cells x) \<le> y"
      using strict [of j k] j k by (simp add: Ej bytesE')
  qed
  show ?thesis using wf pk fields nr by (simp add: e0 n_def)
qed

section \<open>Well-formed blocks under compaction and moves\<close>

lemma example_layout_wf: "wf_layout example_layout"
  by (simp add: wf_layout_def ev)

lemma example_holed_wf: "wf_block example_layout example_holed"
  by (simp add: wf_block_def wf_space_def key_sorted_def pos_key_def ev)



lemma reclaimable_free_wf:
  "wf_layout L \<Longrightarrow> wf_space L bt \<Longrightarrow>
     reclaimable_free L bt = free_end bt + free_reclaim bt - (sizeof_btree_block L + 2 * nr_items bt)"
proof -
  assume L: "wf_layout L" and W: "wf_space L bt"
  have "free_end bt + free_reclaim bt \<le> SCOUTFS_BLOCK_SIZE L"
    using W unfolding wf_space_def by linarith
  moreover have "SCOUTFS_BLOCK_SIZE L < 65536" using L by (simp add: wf_layout_def)
  moreover have "sizeof_btree_block L + 2 * nr_items bt \<le> free_end bt"
    using W by (simp add: wf_space_def)
  ultimately show ?thesis
    by (simp add: reclaimable_free_def contig_free_wf [OF L W] u32_id)
qed

lemma used_total_wf:
  "wf_layout L \<Longrightarrow> wf_space L bt \<Longrightarrow>
     used_total L bt = 2 * nr_items bt + (\<Sum>off\<leftarrow>item_offs bt. item_bytes L (off_item bt off))"
proof -
  assume L: "wf_layout L" and W: "wf_space L bt"
  have acc: "free_end bt + free_reclaim bt + (\<Sum>off\<leftarrow>item_offs bt. item_bytes L (off_item bt off)) = SCOUTFS_BLOCK_SIZE L"
    using W unfolding wf_space_def by blast
  have bs: "SCOUTFS_BLOCK_SIZE L < 65536" "sizeof_btree_block L \<le> SCOUTFS_BLOCK_SIZE L"
    using L by (simp_all add: wf_layout_def)
  have le: "sizeof_btree_block L + 2 * nr_items bt \<le> free_end bt"
    using W by (simp add: wf_space_def)
  have "int (SCOUTFS_BLOCK_SIZE L) - int (sizeof_btree_block L) - int (reclaimable_free L bt)
      = int (2 * nr_items bt + (\<Sum>off\<leftarrow>item_offs bt. item_bytes L (off_item bt off)))"
    using acc le by (simp add: reclaimable_free_wf [OF L W])
  moreover have "2 * nr_items bt + (\<Sum>off\<leftarrow>item_offs bt. item_bytes L (off_item bt off)) < 4294967296"
    using acc le bs by linarith
  ultimately show ?thesis
    unfolding used_total_def by (simp only: u32_id of_nat_0_le_iff)
qed

lemma compact_items_wf_block:
  assumes L: "wf_layout L" and W: "wf_block L bt"
  shows "wf_block L (compact_items L bt)"
proof -
  have Ws: "wf_space L bt" and Ks: "key_sorted bt" using W by (simp_all add: wf_block_def)
  have "key_sorted (compact_items L bt)"
    using Ks by (simp add: key_sorted_block_items compact_items_block_items [OF L W])
  then show ?thesis
    using compact_items_wf_space [OF L Ws] by (simp add: wf_block_def)
qed

text \<open>
  C8.  For a well-formed block, \<^verbatim>\<open>compact_items\<close> leaves the key-ordered sequence of
  items (key, sequence number, value length and value of each) unchanged; afterwards
  \<open>free_reclaim = 0\<close>, \<open>contig_free\<close> equals the \<open>reclaimable_free\<close> of the block
  before the call, and the items are packed without gaps from the new \<open>free_end\<close> up
  to the end of the block.
\<close>

theorem compact_items_repacks:
  assumes "wf_layout L" and "wf_block L bt"
  shows "block_items (compact_items L bt) = block_items bt \<and>
     key_sorted (compact_items L bt) \<and>
     free_reclaim (compact_items L bt) = 0 \<and>
     contig_free L (compact_items L bt) = reclaimable_free L bt \<and>
     packed L (compact_items L bt) \<and>
     wf_block L (compact_items L bt)"
proof -
  have Ws: "wf_space L bt" using assms(2) by (simp add: wf_block_def)
  note c = compact_items_wf_space [OF assms(1) Ws]
  note w = compact_items_wf_block [OF assms]
  have Wc: "wf_space L (compact_items L bt)" using c by blast
  have "contig_free L (compact_items L bt) = reclaimable_free L bt"
    using c by (simp add: contig_free_wf [OF assms(1) Wc] reclaimable_free_wf [OF assms(1) Ws])
  then show ?thesis
    using c w compact_items_block_items [OF assms] by (simp add: wf_block_def)
qed

theorem compact_items_repacks_witness:
  "wf_layout example_layout \<and> wf_block example_layout example_holed \<and>
   free_reclaim example_holed = 20 \<and>
   contig_free example_layout example_holed = 4000 \<and>
   reclaimable_free example_layout example_holed = 4020 \<and>
   map item_key (block_items example_holed) = [10, 30] \<and>
   free_reclaim (compact_items example_layout example_holed) = 0 \<and>
   contig_free example_layout (compact_items example_layout example_holed) = 4020 \<and>
   map item_key (block_items (compact_items example_layout example_holed)) = [10, 30] \<and>
   packed example_layout (compact_items example_layout example_holed)"
proof -
  have r: "free_reclaim example_holed = 20"
    "contig_free example_layout example_holed = 4000"
    "reclaimable_free example_layout example_holed = 4020"
    "map item_key (block_items example_holed) = [10, 30]"
    by (simp_all add: ev)
  from compact_items_repacks [OF example_layout_wf example_holed_wf]
    example_layout_wf example_holed_wf r
  show ?thesis by simp
qed







lemmas tree_eval = example_sb_empty_def example_sb_full_def example_tree_def example_empty_def
  example_leaf_def example_layout_def mk_item_def zero_item_def bh_data_def nr_items_def
  pos_key_def pos_item_def off_item_def

section \<open>The walk on an empty tree\<close>

lemma find_pos_after_seq_returns: "\<exists>p. find_pos_after_seq bt k level seq op = Some p"
proof -
  obtain pos cmp where f: "find_pos bt k = (pos, cmp)" by (cases "find_pos bt k")
  from skip_pos_seq_reads_inside [of bt pos level seq op]
  obtain s where s: "skip_pos_seq bt pos level seq op = Some s" by auto
  from next_pos_seq_returns [of bt pos level seq op]
  show ?thesis using f s by (auto simp: find_pos_after_seq_def)
qed

text \<open>
  C1.  On an empty tree (\<^verbatim>\<open>root->height == 0\<close>) \<^verbatim>\<open>btree_walk\<close> returns
  \<^verbatim>\<open>-ENOENT\<close> to an insertion and leaves the tree as it is, and for every other
  operation, the read operations included, it returns what \<^verbatim>\<open>grow_tree\<close> returns: with
  a free block the tree gets a new empty root leaf of height one, and with none the
  walk fails with the error of the allocator.  The specification states the opposite
  assignment: that the insertion grows the tree and that the other operations return
  not-found without modifying it.
\<close>

theorem btree_walk_empty_tree:
  assumes h: "root_height (btree_root sb) = 0"
  shows "btree_walk L sb k val_len seq WALK_INSERT = (sb, scoutfs_max_key, Inl ENOENT) \<and>
         (op \<noteq> WALK_INSERT \<longrightarrow>
            btree_walk L sb k val_len seq op
              = (fst (grow_tree L sb), scoutfs_max_key, snd (grow_tree L sb))) \<and>
         (free_blknos sb = blkno # rest \<longrightarrow>
            snd (grow_tree L sb) = Inr blkno \<and>
            root_height (btree_root (fst (grow_tree L sb))) = 1 \<and>
            ref_blkno (root_ref (btree_root (fst (grow_tree L sb)))) = blkno \<and>
            free_blknos (fst (grow_tree L sb)) = rest \<and>
            nr_items (bh_data (fst (grow_tree L sb)) blkno) = 0) \<and>
         (free_blknos sb = [] \<longrightarrow> grow_tree L sb = (sb, Inl ENOSPC))"
  using h
  by (auto simp: btree_walk_def Let_def grow_tree_def alloc_tree_block_def
      scoutfs_block_dirty_alloc_def set_bh_data_def bh_data_def nr_items_def
      split: prod.splits sum.splits list.splits)

theorem btree_walk_empty_tree_witness:
  "root_height (btree_root example_sb_empty) = 0 \<and>
   btree_walk example_layout example_sb_empty 1 2 0 WALK_INSERT
     = (example_sb_empty, scoutfs_max_key, Inl ENOENT) \<and>
   WALK_LOOKUP \<noteq> WALK_INSERT \<and> free_blknos example_sb_empty = [9, 11] \<and>
   snd (snd (btree_walk example_layout example_sb_empty 1 0 0 WALK_LOOKUP)) = Inr 9 \<and>
   root_height (btree_root (fst (btree_walk example_layout example_sb_empty 1 0 0 WALK_LOOKUP))) = 1 \<and>
   free_blknos (fst (btree_walk example_layout example_sb_empty 1 0 0 WALK_LOOKUP)) = [11]"
proof -
  have h: "root_height (btree_root example_sb_empty) = 0" by (simp add: tree_eval)
  have f: "free_blknos example_sb_empty = [9, 11]" by (simp add: tree_eval)
  from btree_walk_empty_tree [OF h, of example_layout 1 2 0 WALK_LOOKUP 9 "[11]"]
    btree_walk_empty_tree [OF h, of example_layout 1 0 0 WALK_LOOKUP 9 "[11]"] h f
  show ?thesis by simp
qed

section \<open>Iteration up to the maximal key\<close>

lemma find_pos_past_end:
  assumes s: "key_sorted bt" and b: "\<forall>i. i < nr_items bt \<longrightarrow> pos_key bt i < k"
  shows "fst (find_pos bt k) = nr_items bt"
proof -
  obtain p c where run: "find_pos_loop bt k 0 (nr_items bt) 0 (- 1) = (p, c)"
    by (cases "find_pos_loop bt k 0 (nr_items bt) 0 (- 1)")
  have main: "p \<le> nr_items bt \<and> (\<forall>i. i < p \<longrightarrow> pos_key bt i < k) \<and>
     (if c = 0 then p < nr_items bt \<and> pos_key bt p = k
      else c < 0 \<and> (\<forall>i. p \<le> i \<and> i < nr_items bt \<longrightarrow> k < pos_key bt i))"
    by (rule find_pos_loop_correct [OF s _ _ _ _ _ run]) auto
  have "p = nr_items bt"
  proof (rule ccontr)
    assume "p \<noteq> nr_items bt"
    with main have lt: "p < nr_items bt" by simp
    with b have "pos_key bt p < k" by simp
    with main lt show False by (cases "c = 0") auto
  qed
  with run show ?thesis by (simp add: find_pos_def)
qed

lemma btree_walk_leaf_root:
  assumes h: "root_height (btree_root sb) = 1"
    and r: "ref_blkno (root_ref (btree_root sb)) \<notin> set (bad_blknos sb)"
  shows "btree_walk L sb k val_len seq WALK_NEXT
           = (sb, scoutfs_max_key, Inr (ref_blkno (root_ref (btree_root sb))))"
  using h r
  by (simp add: btree_walk_def Let_def get_block_ref_def scoutfs_block_read_ref_def
      read_ref_ptr_def)

lemma find_pos_after_seq_next:
  "find_pos_after_seq bt k level seq WALK_NEXT = Some (fst (find_pos bt k))"
  by (simp add: find_pos_after_seq_def skip_pos_seq_def split: prod.splits)

lemma next_leaf_never_returns:
  assumes h: "root_height (btree_root sb) = 1"
    and r: "ref_blkno (root_ref (btree_root sb)) \<notin> set (bad_blknos sb)"
    and s: "key_sorted (bh_data sb (ref_blkno (root_ref (btree_root sb))))"
    and b: "\<forall>i. i < nr_items (bh_data sb (ref_blkno (root_ref (btree_root sb)))) \<longrightarrow>
              pos_key (bh_data sb (ref_blkno (root_ref (btree_root sb)))) i < first"
  shows "first \<le> k \<Longrightarrow> curs_bh curs = None \<Longrightarrow>
           next_leaf L sb k scoutfs_max_key seq WALK_NEXT curs = None"
proof -
  let ?leaf = "bh_data sb (ref_blkno (root_ref (btree_root sb)))"
  let ?Q = "\<lambda>L1 sb1 k1 (lastk1 :: scoutfs_key) (seq1 :: 64 word) op1 curs1
                (y1 :: super_block \<times> scoutfs_btree_cursor \<times> errno option).
              \<not> (L1 = L \<and> sb1 = sb \<and> first \<le> k1 \<and> lastk1 = scoutfs_max_key \<and>
                 op1 = WALK_NEXT \<and> curs_bh curs1 = None)"
  have main: "?Q L1 sb1 k1 lastk1 seq1 op1 curs1 y1"
    if ret: "next_leaf L1 sb1 k1 lastk1 seq1 op1 curs1 = Some y1"
    for L1 sb1 k1 lastk1 seq1 op1 curs1 y1
    apply (rule next_leaf.raw_induct [where P = ?Q, OF _ ret])
    subgoal premises prems for nl L2 sb2 k2 lastk2 seq2 op2 curs2 y2
    proof
      assume a: "L2 = L \<and> sb2 = sb \<and> first \<le> k2 \<and> lastk2 = scoutfs_max_key \<and>
                 op2 = WALK_NEXT \<and> curs_bh curs2 = None"
      have le: "scoutfs_key_cmp k2 scoutfs_max_key \<le> 0"
        by (simp add: scoutfs_key_cmp_def scoutfs_max_key_def word_order.extremum_strict)
      have "\<forall>i. i < nr_items ?leaf \<longrightarrow> pos_key ?leaf i < k2"
        using b a by (meson less_le_trans)
      from find_pos_past_end [OF s this]
      have fp: "fst (find_pos ?leaf k2) = nr_items ?leaf" .
      have m: "first \<le> scoutfs_max_key" by (simp add: scoutfs_max_key_def)
      from prems(2) a le fp
      have step: "nl L sb scoutfs_max_key scoutfs_max_key seq2 WALK_NEXT
               (curs2\<lparr>curs_pos := nr_items ?leaf\<rparr>) = Some y2"
        by (simp add: btree_walk_leaf_root [OF h r] find_pos_after_seq_next)
      from prems(1) [OF step] m a show False by simp
    qed
    done
  show "first \<le> k \<Longrightarrow> curs_bh curs = None \<Longrightarrow>
           next_leaf L sb k scoutfs_max_key seq WALK_NEXT curs = None"
    using main [of L sb k scoutfs_max_key seq WALK_NEXT curs]
    by (cases "next_leaf L sb k scoutfs_max_key seq WALK_NEXT curs") auto
qed

text \<open>
  C2.  For a tree of height one whose readable, key-sorted root leaf holds no key at or
  after \<open>first\<close>, the call \<^verbatim>\<open>scoutfs_btree_next(first, last)\<close> with the maximal key
  as \<^verbatim>\<open>last\<close> and an empty cursor does not return: the leaf loop of \<^verbatim>\<open>btree_next\<close>
  sets \<^verbatim>\<open>key\<close> to \<^verbatim>\<open>next_key\<close>, which the walk has set to the maximal key, and the
  loop condition \<^verbatim>\<open>key <= last\<close> holds again.  An iteration with these bounds never
  reaches the call that returns 0.
\<close>

theorem scoutfs_btree_next_never_returns:
  assumes "root_height (btree_root sb) = 1"
    and "ref_blkno (root_ref (btree_root sb)) \<notin> set (bad_blknos sb)"
    and "key_sorted (bh_data sb (ref_blkno (root_ref (btree_root sb))))"
    and "\<forall>i. i < nr_items (bh_data sb (ref_blkno (root_ref (btree_root sb)))) \<longrightarrow>
              pos_key (bh_data sb (ref_blkno (root_ref (btree_root sb)))) i < first"
  shows "scoutfs_btree_next L sb first scoutfs_max_key DECLARE_SCOUTFS_BTREE_CURSOR = None"
proof -
  have c: "curs_bh DECLARE_SCOUTFS_BTREE_CURSOR = None"
    by (simp add: DECLARE_SCOUTFS_BTREE_CURSOR_def)
  have le: "\<not> scoutfs_key_cmp first scoutfs_max_key > 0"
    by (simp add: scoutfs_key_cmp_def scoutfs_max_key_def word_order.extremum_strict)
  from next_leaf_never_returns [OF assms order_refl c, of L 0] c le
  show ?thesis by (simp add: scoutfs_btree_next_def btree_next_def)
qed

theorem scoutfs_btree_next_never_returns_witness:
  "root_height (btree_root example_tree) = 1 \<and>
   ref_blkno (root_ref (btree_root example_tree)) = 7 \<and> bad_blknos example_tree = [] \<and>
   bh_data example_tree 7 = example_leaf \<and> key_sorted example_leaf \<and>
   nr_items example_leaf = 3 \<and> pos_key example_leaf 0 = 10 \<and> pos_key example_leaf 1 = 20 \<and>
   pos_key example_leaf 2 = 30 \<and>
   scoutfs_btree_next example_layout example_tree 31 scoutfs_max_key DECLARE_SCOUTFS_BTREE_CURSOR
     = None"
proof -
  have h: "root_height (btree_root example_tree) = 1" by (simp add: tree_eval)
  have r: "ref_blkno (root_ref (btree_root example_tree)) = 7" by (simp add: tree_eval)
  have b: "bad_blknos example_tree = []" by (simp add: tree_eval)
  have l: "bh_data example_tree 7 = example_leaf" by (simp add: example_tree_def bh_data_def)
  have s: "key_sorted example_leaf" by (simp add: key_sorted_def tree_eval upt_rec)
  have n: "nr_items example_leaf = 3" by (simp add: tree_eval)
  have k: "pos_key example_leaf 0 = 10" "pos_key example_leaf 1 = 20" "pos_key example_leaf 2 = 30"
    by (simp_all add: tree_eval)
  have a: "\<forall>i. i < nr_items example_leaf \<longrightarrow> pos_key example_leaf i < 31"
  proof (intro allI impI)
    fix i assume "i < nr_items example_leaf"
    with n have "i = 0 \<or> i = 1 \<or> i = 2" by auto
    with k show "pos_key example_leaf i < 31" by auto
  qed
  from scoutfs_btree_next_never_returns [of example_tree 31 example_layout] h r b l s a
  have "scoutfs_btree_next example_layout example_tree 31 scoutfs_max_key
          DECLARE_SCOUTFS_BTREE_CURSOR = None" by simp
  with h r b l s n k show ?thesis by simp
qed

text \<open>
  C5.  Under the same conditions \<^verbatim>\<open>scoutfs_btree_hole(first, last)\<close> with the maximal
  key as \<^verbatim>\<open>last\<close> does not return, although \<open>first\<close> itself is a key of the range
  that is not in the tree: its first call of \<^verbatim>\<open>scoutfs_btree_next\<close> never returns.
\<close>

theorem scoutfs_btree_hole_never_returns:
  assumes "root_height (btree_root sb) = 1"
    and "ref_blkno (root_ref (btree_root sb)) \<notin> set (bad_blknos sb)"
    and "key_sorted (bh_data sb (ref_blkno (root_ref (btree_root sb))))"
    and "\<forall>i. i < nr_items (bh_data sb (ref_blkno (root_ref (btree_root sb)))) \<longrightarrow>
              pos_key (bh_data sb (ref_blkno (root_ref (btree_root sb)))) i < first"
  shows "scoutfs_btree_hole L sb first scoutfs_max_key = None"
proof -
  have c: "curs_bh DECLARE_SCOUTFS_BTREE_CURSOR = None"
    by (simp add: DECLARE_SCOUTFS_BTREE_CURSOR_def)
  have le: "\<not> scoutfs_key_cmp first scoutfs_max_key > 0"
    by (simp add: scoutfs_key_cmp_def scoutfs_max_key_def word_order.extremum_strict)
  from next_leaf_never_returns [OF assms order_refl c, of L 0] c le
  have "scoutfs_btree_next L sb first scoutfs_max_key DECLARE_SCOUTFS_BTREE_CURSOR = None"
    by (simp add: scoutfs_btree_next_def btree_next_def)
  then show ?thesis
    by (simp add: scoutfs_btree_hole_def hole_loop.simps [of L sb first scoutfs_max_key first])
qed

theorem scoutfs_btree_hole_never_returns_witness:
  "root_height (btree_root example_tree) = 1 \<and>
   ref_blkno (root_ref (btree_root example_tree)) = 7 \<and> bad_blknos example_tree = [] \<and>
   bh_data example_tree 7 = example_leaf \<and> key_sorted example_leaf \<and>
   nr_items example_leaf = 3 \<and> pos_key example_leaf 0 = 10 \<and> pos_key example_leaf 1 = 20 \<and>
   pos_key example_leaf 2 = 30 \<and>
   scoutfs_btree_hole example_layout example_tree 31 scoutfs_max_key = None"
proof -
  have h: "root_height (btree_root example_tree) = 1" by (simp add: tree_eval)
  have r: "ref_blkno (root_ref (btree_root example_tree)) = 7" by (simp add: tree_eval)
  have b: "bad_blknos example_tree = []" by (simp add: tree_eval)
  have l: "bh_data example_tree 7 = example_leaf" by (simp add: example_tree_def bh_data_def)
  have s: "key_sorted example_leaf" by (simp add: key_sorted_def tree_eval upt_rec)
  have n: "nr_items example_leaf = 3" by (simp add: tree_eval)
  have k: "pos_key example_leaf 0 = 10" "pos_key example_leaf 1 = 20" "pos_key example_leaf 2 = 30"
    by (simp_all add: tree_eval)
  have a: "\<forall>i. i < nr_items example_leaf \<longrightarrow> pos_key example_leaf i < 31"
  proof (intro allI impI)
    fix i assume "i < nr_items example_leaf"
    with n have "i = 0 \<or> i = 1 \<or> i = 2" by auto
    with k show "pos_key example_leaf i < 31" by auto
  qed
  from scoutfs_btree_hole_never_returns [of example_tree 31 example_layout] h r b l s a
  have "scoutfs_btree_hole example_layout example_tree 31 scoutfs_max_key = None" by simp
  with h r b l s n k show ?thesis by simp
qed

section \<open>Deletion from an empty tree\<close>

text \<open>
  C7.  \<^verbatim>\<open>scoutfs_btree_delete\<close> on an empty tree, where no key is present: its
  \<^verbatim>\<open>WALK_DELETE\<close> walk calls \<^verbatim>\<open>grow_tree\<close>.  Without a free block the deletion
  returns the error of the allocator and not \<^verbatim>\<open>-ENOENT\<close>; with a free block it
  returns \<^verbatim>\<open>-ENOENT\<close> and leaves a tree of height one whose root is a new empty leaf.
\<close>

theorem scoutfs_btree_delete_empty_tree:
  assumes h: "root_height (btree_root sb) = 0"
  shows "(free_blknos sb = [] \<longrightarrow> scoutfs_btree_delete L sb k = (sb, Inl ENOSPC)) \<and>
         (free_blknos sb = blkno # rest \<longrightarrow>
            snd (scoutfs_btree_delete L sb k) = Inl ENOENT \<and>
            root_height (btree_root (fst (scoutfs_btree_delete L sb k))) = 1 \<and>
            ref_blkno (root_ref (btree_root (fst (scoutfs_btree_delete L sb k)))) = blkno \<and>
            free_blknos (fst (scoutfs_btree_delete L sb k)) = rest)"
  using h
  by (auto simp: scoutfs_btree_delete_def btree_walk_def Let_def grow_tree_def alloc_tree_block_def
      scoutfs_block_dirty_alloc_def set_bh_data_def bh_data_def nr_items_def
      find_pos_def find_pos_loop.simps
      split: prod.splits sum.splits list.splits)

theorem scoutfs_btree_delete_empty_tree_witness:
  "root_height (btree_root example_sb_full) = 0 \<and> free_blknos example_sb_full = [] \<and>
   scoutfs_btree_delete example_layout example_sb_full 1 = (example_sb_full, Inl ENOSPC) \<and>
   root_height (btree_root example_sb_empty) = 0 \<and> free_blknos example_sb_empty = [9, 11] \<and>
   snd (scoutfs_btree_delete example_layout example_sb_empty 1) = Inl ENOENT \<and>
   root_height (btree_root (fst (scoutfs_btree_delete example_layout example_sb_empty 1))) = 1 \<and>
   free_blknos (fst (scoutfs_btree_delete example_layout example_sb_empty 1)) = [11]"
proof -
  have h: "root_height (btree_root example_sb_full) = 0" by (simp add: tree_eval)
  have f: "free_blknos example_sb_full = []" by (simp add: tree_eval)
  have h': "root_height (btree_root example_sb_empty) = 0" by (simp add: tree_eval)
  have f': "free_blknos example_sb_empty = [9, 11]" by (simp add: tree_eval)
  from scoutfs_btree_delete_empty_tree [OF h, of example_layout 1 9 "[11]"]
    scoutfs_btree_delete_empty_tree [OF h', of example_layout 1 9 "[11]"] h f h' f'
  show ?thesis by simp
qed

end
